theory Spec2Isabelle
  imports Main "HOL-Library.Word" "HOL-Library.AList"
begin

unbundle bit_operations_syntax

section \<open>Shared data model\<close>

text \<open>
  A \<open>*probe.Error\<close> wraps a Go error. The only thing the code under study ever asks
  of one is the type switch \<open>pErr.ToGoError().(type)\<close> with the single case
  \<open>PathInsufficientPermission\<close>, so an error is either of that type or of some other
  type; both carry their text.
\<close>

datatype perr = PathInsufficientPermission string | OtherError string

fun isInsufficientPermission :: "perr \<Rightarrow> bool" where
  "isInsufficientPermission (PathInsufficientPermission p) = True"
| "isInsufficientPermission (OtherError m) = False"

text \<open>
  \<open>ClientContent\<close>, the content container of the client interface. \<open>URL\<close> is kept by
  its \<open>Path\<close>; \<open>Time\<close> and \<open>Expires\<close> count seconds from Go's zero instant, so
  \<open>Time.IsZero()\<close> is \<open>Time = 0\<close>; \<open>Type\<close> is an \<open>os.FileMode\<close> (uint32); a Go
  \<open>map[string]string\<close> is an association list whose order is the order in which
  \<open>range\<close> happens to visit the keys.
\<close>

type_synonym gomap = "(string \<times> string) list"

record ClientContent =
  URL :: string
  Time :: int
  Size :: int
  Type :: "32 word"
  StorageClass :: string
  Metadata :: gomap
  UserMetadata :: gomap
  ETag :: string
  Expires :: int
  RetentionEnabled :: bool
  RetentionMode :: string
  RetentionDuration :: string
  BypassGovernance :: bool
  LegalHoldEnabled :: bool
  LegalHold :: string
  Err :: "perr option"

definition ModeDir :: "32 word" where
  "ModeDir = push_bit 31 1"

definition IsDir :: "32 word \<Rightarrow> bool" where
  "IsDir m = (m AND ModeDir \<noteq> 0)"

definition IsZero :: "int \<Rightarrow> bool" where
  "IsZero t = (t = 0)"

subsection \<open>The string helpers of Go's library that the code calls\<close>

definition HasSuffix :: "string \<Rightarrow> string \<Rightarrow> bool" where
  "HasSuffix s suffix =
     (length suffix \<le> length s \<and> drop (length s - length suffix) s = suffix)"

definition HasPrefix :: "string \<Rightarrow> string \<Rightarrow> bool" where
  "HasPrefix s pre = (length pre \<le> length s \<and> take (length pre) s = pre)"

text \<open>\<open>strings.Split(s, sep)\<close> for a separator of one byte: every occurrence cuts.\<close>

fun Split :: "string \<Rightarrow> char \<Rightarrow> string list" where
  "Split [] sep = [[]]"
| "Split (c # cs) sep =
     (if c = sep then [] # Split cs sep
      else (case Split cs sep of [] \<Rightarrow> [[c]] | f # fs \<Rightarrow> (c # f) # fs))"

text \<open>\<open>strings.SplitN(s, sep, 2)\<close> for a separator of one byte: cut at the first one.\<close>

fun SplitN2 :: "string \<Rightarrow> char \<Rightarrow> string list" where
  "SplitN2 [] sep = [[]]"
| "SplitN2 (c # cs) sep =
     (if c = sep then [[], cs]
      else (case SplitN2 cs sep of [] \<Rightarrow> [[c]] | f # fs \<Rightarrow> (c # f) # fs))"

text \<open>
  \<open>filepath.ToSlash\<close>: the identity where the separator is a slash, otherwise every
  separator becomes a slash. \<open>filepath.Separator\<close> depends on the platform and is a
  parameter.
\<close>

definition ToSlash :: "char \<Rightarrow> string \<Rightarrow> string" where
  "ToSlash Separator p =
     (if Separator = CHR ''/'' then p
      else map (\<lambda>c. if c = Separator then CHR ''/'' else c) p)"

section \<open>Location resolver: \<open>isAliasURLDir\<close> (common-methods.go)\<close>

text \<open>
  \<open>url2Stat\<close> and \<open>mustExpandAlias\<close> query the backend and the alias configuration;
  what they return for \<open>aliasURL\<close> is an input: the stat result (an error or the
  content) and the expanded URL.
\<close>

definition isAliasURLDir ::
  "char \<Rightarrow> perr + ClientContent \<Rightarrow> string \<Rightarrow> string \<Rightarrow> bool" where
  "isAliasURLDir Separator url2Stat expandedURL aliasURL =
     (case url2Stat of
        Inr targetContent \<Rightarrow> IsDir (Type targetContent)
      | Inl err \<Rightarrow>
          if expandedURL = aliasURL then HasSuffix aliasURL [Separator]
          else
            let pathURL = ToSlash Separator aliasURL;
                fields = Split pathURL (CHR ''/'')
            in if length fields = 0 \<or> length fields = 1 then False
               else if length fields = 2 then True
               else HasSuffix pathURL ''/'')"

text \<open>A content as \<open>stat\<close> gives it for a plain object: mode 0664, nothing else set.\<close>

definition plainFile :: "string \<Rightarrow> ClientContent" where
  "plainFile u =
     \<lparr>URL = u, Time = 1, Size = 0, Type = 436, StorageClass = [], Metadata = [],
      UserMetadata = [], ETag = [], Expires = 0, RetentionEnabled = False,
      RetentionMode = [], RetentionDuration = [], BypassGovernance = False,
      LegalHoldEnabled = False, LegalHold = [], Err = None\<rparr>"

section \<open>Encryption key registry: \<open>parseKey\<close>, \<open>getDecodedKey\<close> (common-methods.go)\<close>

text \<open>
  \<open>base64.StdEncoding.DecodeString\<close> of Go's library: the alphabet \<open>A-Z a-z 0-9 + /\<close>,
  padding with \<open>=\<close>, carriage returns and line feeds ignored wherever they stand, the
  unused bits of a padded last group not checked. The input is read in groups of four
  characters; a padded group must be the last one. Any malformed input is an error
  (\<open>None\<close>); \<open>parseKey\<close> ignores the partial output Go returns beside the error.
\<close>

definition decodeMap :: "char \<Rightarrow> nat option" where
  "decodeMap c =
     (let n = (of_char c :: nat)
      in if 65 \<le> n \<and> n \<le> 90 then Some (n - 65)
         else if 97 \<le> n \<and> n \<le> 122 then Some (n - 71)
         else if 48 \<le> n \<and> n \<le> 57 then Some (n + 4)
         else if n = 43 then Some 62
         else if n = 47 then Some 63
         else None)"

definition padChar :: char where
  "padChar = CHR ''=''"

definition assemble :: "nat \<Rightarrow> nat \<Rightarrow> nat \<Rightarrow> nat \<Rightarrow> string" where
  "assemble x y z w =
     (let val = x * 262144 + y * 4096 + z * 64 + w
      in [char_of (val div 65536), char_of (val div 256), char_of val])"

fun decodeQuanta :: "string \<Rightarrow> string option" where
  "decodeQuanta [] = Some []"
| "decodeQuanta (a # b # c # d # rest) =
     (case decodeMap a of
        None \<Rightarrow> None
      | Some x \<Rightarrow>
         (case decodeMap b of
            None \<Rightarrow> None
          | Some y \<Rightarrow>
             (case decodeMap c of
                None \<Rightarrow>
                  if c = padChar \<and> d = padChar \<and> rest = []
                  then Some (take 1 (assemble x y 0 0)) else None
              | Some z \<Rightarrow>
                 (case decodeMap d of
                    None \<Rightarrow>
                      if d = padChar \<and> rest = []
                      then Some (take 2 (assemble x y z 0)) else None
                  | Some w \<Rightarrow>
                     (case decodeQuanta rest of
                        None \<Rightarrow> None
                      | Some r \<Rightarrow> Some (assemble x y z w @ r))))))"
| "decodeQuanta (a # rest) = None"

definition isNewline :: "char \<Rightarrow> bool" where
  "isNewline c = (c = CHR 0x0A \<or> c = CHR 0x0D)"

definition DecodeString :: "string \<Rightarrow> string option" where
  "DecodeString s = decodeQuanta (filter (\<lambda>c. \<not> isNewline c) s)"

definition errPrefixForm :: perr where
  "errPrefixForm = OtherError ''SSE-C prefix should be of the form prefix1=key1,... ''"

definition errKeyLength :: perr where
  "errKeyLength = OtherError
     ''Encryption key should be 32 bytes plain text key or 44 bytes base64 encoded key''"

definition parseKey :: "string \<Rightarrow> perr + string" where
  "parseKey sseKeys =
     (let encryptString = SplitN2 sseKeys (CHR ''='')
      in if length encryptString < 2 then Inl errPrefixForm
         else
           let secretValue = encryptString ! 1
           in if length secretValue = 32 then Inr sseKeys
              else (case DecodeString secretValue of
                      None \<Rightarrow> Inl errKeyLength
                    | Some decodedString \<Rightarrow>
                        if length decodedString \<noteq> 32 then Inl errKeyLength
                        else Inr (encryptString ! 0 @ ''='' @ decodedString)))"

text \<open>The loop of \<open>getDecodedKey\<close>: \<open>i\<close> is the index, \<open>keyString\<close> the accumulator.\<close>

fun getDecodedKey_loop :: "string list \<Rightarrow> nat \<Rightarrow> string \<Rightarrow> perr + string" where
  "getDecodedKey_loop [] i keyString = Inr keyString"
| "getDecodedKey_loop (sse # rest) i keyString =
     (let keyString1 = (if 0 < i then keyString @ '','' else keyString)
      in case parseKey sse of
           Inl err \<Rightarrow> Inl err
         | Inr sseString \<Rightarrow> getDecodedKey_loop rest (Suc i) (keyString1 @ sseString))"

definition getDecodedKey :: "string \<Rightarrow> perr + string" where
  "getDecodedKey sseKeys = getDecodedKey_loop (Split sseKeys (CHR '','')) 0 []"

section \<open>Bulk remove pipeline: \<open>removeSingle\<close>, \<open>removeRecursive\<close> (the \<open>rm\<close> command)\<close>

text \<open>
  What the two functions do to the outside is a trace of events, in program order:
  a message printed (\<open>printMsg\<close>), an error logged (\<open>errorIf\<close>, with its message), a
  content sent on \<open>contentCh\<close> (that is, handed to the backend's \<open>Remove\<close>), a failure
  received from \<open>errorCh\<close>, and \<open>close(contentCh)\<close>.
\<close>

record rmMessage =
  Key :: string
  MsgSize :: int

datatype event =
    Printed rmMessage
  | Logged perr string
  | Sent ClientContent
  | Received "perr option"
  | Closed

datatype rmReturn = ReturnNil | ExitStatusError

text \<open>
  The state threaded through the loops: the trace so far, and the failures that the
  backend's \<open>Remove\<close> has still to deliver on \<open>errorCh\<close>.
\<close>

record rmState =
  trace :: "event list"
  errorCh :: "perr list"

definition emit :: "event \<Rightarrow> rmState \<Rightarrow> rmState" where
  "emit ev st = st\<lparr>trace := trace st @ [ev]\<rparr>"

fun sentOf :: "event list \<Rightarrow> ClientContent list" where
  "sentOf [] = []"
| "sentOf (Sent c # evs) = c # sentOf evs"
| "sentOf (ev # evs) = sentOf evs"

fun printedOf :: "event list \<Rightarrow> rmMessage list" where
  "printedOf [] = []"
| "printedOf (Printed m # evs) = m # printedOf evs"
| "printedOf (ev # evs) = printedOf evs"

fun loggedOf :: "event list \<Rightarrow> perr list" where
  "loggedOf [] = []"
| "loggedOf (Logged e m # evs) = e # loggedOf evs"
| "loggedOf (ev # evs) = loggedOf evs"

fun receivedOf :: "event list \<Rightarrow> perr list" where
  "receivedOf [] = []"
| "receivedOf (Received (Some e) # evs) = e # receivedOf evs"
| "receivedOf (ev # evs) = receivedOf evs"

text \<open>
  The environment of one call of \<open>removeRecursive\<close>: the alias that \<open>mustExpandAlias\<close>
  gives, whether \<open>newClientFromAlias\<close> fails, what \<open>clnt.List\<close> yields (in order), the
  failures that \<open>clnt.Remove\<close> delivers on \<open>errorCh\<close> (in order), and for each content
  that reaches the \<open>select\<close> how many of these failures are received before the backend
  takes the content (none once the list is used up). The backend closes \<open>errorCh\<close> only
  after \<open>contentCh\<close> is closed, and puts no nil on it.
\<close>

record rmEnv =
  targetAlias :: string
  newClientFromAlias :: "perr option"
  clntList :: "ClientContent list"
  clntRemove :: "perr list"
  arrivals :: "nat list"

text \<open>
  The \<open>for !sent { select { ... } }\<close> loop for one content. \<open>n\<close> bounds the failures
  received first. The result says whether the content was sent; if not, the function
  has closed \<open>contentCh\<close> and returns.
\<close>

fun sendContent :: "string \<Rightarrow> ClientContent \<Rightarrow> nat \<Rightarrow> perr list \<Rightarrow> rmState \<Rightarrow> bool \<times> rmState" where
  "sendContent urlString content 0 errs st = (True, emit (Sent content) (st\<lparr>errorCh := errs\<rparr>))"
| "sendContent urlString content (Suc n) [] st = (True, emit (Sent content) (st\<lparr>errorCh := []\<rparr>))"
| "sendContent urlString content (Suc n) (pErr # errs) st =
     (let st1 = emit (Logged pErr (''Failed to remove `'' @ urlString @ ''`.''))
                  (emit (Received (Some pErr)) st)
      in if isInsufficientPermission pErr then sendContent urlString content n errs st1
         else (False, emit Closed (st1\<lparr>errorCh := errs\<rparr>)))"

text \<open>
  The loop over the listing. \<open>isOlder\<close> and \<open>isNewer\<close> are the age tests the function
  calls; they are parameters here. The result says whether the loop ran to its end
  (\<open>False\<close>: the function returned \<open>exitStatus(globalErrorExitStatus)\<close> from inside).
\<close>

fun listLoop ::
  "(int \<Rightarrow> string \<Rightarrow> bool) \<Rightarrow> (int \<Rightarrow> string \<Rightarrow> bool) \<Rightarrow> string \<Rightarrow> string \<Rightarrow> bool \<Rightarrow>
   string \<Rightarrow> string \<Rightarrow> ClientContent list \<Rightarrow> nat list \<Rightarrow> rmState \<Rightarrow> bool \<times> rmState" where
  "listLoop isOlder isNewer url alias isFake olderThan newerThan [] arr st = (True, st)"
| "listLoop isOlder isNewer url alias isFake olderThan newerThan (content # rest) arr st =
     (case Err content of
        Some err \<Rightarrow>
          (let st1 = emit (Logged err (''Failed to remove `'' @ url @ ''` recursively.'')) st
           in if isInsufficientPermission err
              then listLoop isOlder isNewer url alias isFake olderThan newerThan rest arr st1
              else (False, emit Closed st1))
      | None \<Rightarrow>
          (let urlString = URL content
           in if \<not> IsZero (Time content)
              then
                if olderThan \<noteq> [] \<and> isOlder (Time content) olderThan
                then listLoop isOlder isNewer url alias isFake olderThan newerThan rest arr st
                else if newerThan \<noteq> [] \<and> isNewer (Time content) newerThan
                then listLoop isOlder isNewer url alias isFake olderThan newerThan rest arr st
                else
                  (let st1 = emit (Printed \<lparr>Key = alias @ urlString, MsgSize = Size content\<rparr>) st
                   in if \<not> isFake
                      then (case sendContent urlString content
                                   (case arr of [] \<Rightarrow> 0 | n # ns \<Rightarrow> n) (errorCh st1) st1 of
                              (True, st2) \<Rightarrow>
                                listLoop isOlder isNewer url alias isFake olderThan newerThan
                                  rest (tl arr) st2
                            | (False, st2) \<Rightarrow> (False, st2))
                      else listLoop isOlder isNewer url alias isFake olderThan newerThan
                             rest arr st1)
              else listLoop isOlder isNewer url alias isFake olderThan newerThan rest arr st))"

text \<open>The closing \<open>for pErr := range errorCh\<close> loop.\<close>

fun drainLoop :: "string \<Rightarrow> perr list \<Rightarrow> rmState \<Rightarrow> rmReturn \<times> rmState" where
  "drainLoop url [] st = (ReturnNil, st\<lparr>errorCh := []\<rparr>)"
| "drainLoop url (pErr # errs) st =
     (let st1 = emit (Logged pErr (''Failed to remove `'' @ url @ ''` recursively.''))
                  (emit (Received (Some pErr)) st)
      in if isInsufficientPermission pErr then drainLoop url errs st1
         else (ExitStatusError, st1\<lparr>errorCh := errs\<rparr>))"

definition removeRecursive ::
  "(int \<Rightarrow> string \<Rightarrow> bool) \<Rightarrow> (int \<Rightarrow> string \<Rightarrow> bool) \<Rightarrow> rmEnv \<Rightarrow> string \<Rightarrow> bool \<Rightarrow> bool \<Rightarrow>
   bool \<Rightarrow> string \<Rightarrow> string \<Rightarrow> rmReturn \<times> rmState" where
  "removeRecursive isOlder isNewer env url isIncomplete isFake isBypass olderThan newerThan =
     (case newClientFromAlias env of
        Some pErr \<Rightarrow>
          (ExitStatusError,
           \<lparr>trace = [Logged pErr (''Failed to remove `'' @ url @ ''` recursively.'')],
            errorCh = []\<rparr>)
      | None \<Rightarrow>
          (case listLoop isOlder isNewer url (targetAlias env) isFake olderThan newerThan
                  (clntList env) (arrivals env) \<lparr>trace = [], errorCh = clntRemove env\<rparr> of
             (False, st) \<Rightarrow> (ExitStatusError, st)
           | (True, st) \<Rightarrow> drainLoop url (errorCh st) (emit Closed st)))"

text \<open>
  The environment of one call of \<open>removeSingle\<close>: the result of \<open>statURL\<close>, the expanded
  URL, whether \<open>newClientFromAlias\<close> fails, the client's separator, and what
  \<open>errorCh\<close> delivers (here the code tests each element for nil).
\<close>

record rmSingleEnv =
  statURL :: "perr + ClientContent list"
  targetURL :: string
  newClient :: "perr option"
  clntSeparator :: char
  clntRemoveOne :: "perr option list"

definition errDummy :: perr where
  "errDummy = OtherError []"

text \<open>\<open>&ClientContent{URL: *newClientURL(targetURL)}\<close>: every other field is zero.\<close>

definition contentOfURL :: "string \<Rightarrow> ClientContent" where
  "contentOfURL u =
     \<lparr>URL = u, Time = 0, Size = 0, Type = 0, StorageClass = [], Metadata = [],
      UserMetadata = [], ETag = [], Expires = 0, RetentionEnabled = False,
      RetentionMode = [], RetentionDuration = [], BypassGovernance = False,
      LegalHoldEnabled = False, LegalHold = [], Err = None\<rparr>"

fun singleErrLoop :: "string \<Rightarrow> perr option list \<Rightarrow> event list \<Rightarrow> rmReturn \<times> event list" where
  "singleErrLoop url [] tr = (ReturnNil, tr)"
| "singleErrLoop url (None # errs) tr = singleErrLoop url errs (tr @ [Received None])"
| "singleErrLoop url (Some pErr # errs) tr =
     (let tr1 = tr @ [Received (Some pErr), Logged pErr (''Failed to remove `'' @ url @ ''`.'')]
      in if isInsufficientPermission pErr then singleErrLoop url errs tr1
         else (ExitStatusError, tr1))"

definition removeSingle ::
  "(int \<Rightarrow> string \<Rightarrow> bool) \<Rightarrow> (int \<Rightarrow> string \<Rightarrow> bool) \<Rightarrow> rmSingleEnv \<Rightarrow> string \<Rightarrow> bool \<Rightarrow> bool \<Rightarrow>
   bool \<Rightarrow> bool \<Rightarrow> string \<Rightarrow> string \<Rightarrow> rmReturn \<times> event list" where
  "removeSingle isOlder isNewer env url isIncomplete isFake isForce isBypass olderThan newerThan =
     (case statURL env of
        Inl pErr \<Rightarrow> (ExitStatusError, [Logged pErr (''Failed to remove `'' @ url @ ''`.'')])
      | Inr contents \<Rightarrow>
          (case contents of
             [] \<Rightarrow>
               if \<not> isForce
               then (ExitStatusError,
                     [Logged errDummy
                        (''Failed to remove `'' @ url @ ''`. Target object is not found'')])
               else (ReturnNil, [])
           | content # others \<Rightarrow>
               if olderThan \<noteq> [] \<and> isOlder (Time content) olderThan then (ReturnNil, [])
               else if newerThan \<noteq> [] \<and> isNewer (Time content) newerThan then (ReturnNil, [])
               else
                 (let tr1 = [Printed \<lparr>Key = url, MsgSize = Size content\<rparr>]
                  in if \<not> isFake
                     then (case newClient env of
                             Some pErr \<Rightarrow>
                               (ExitStatusError,
                                tr1 @ [Logged pErr (''Invalid argument `'' @ url @ ''`.'')])
                           | None \<Rightarrow>
                               (let targetURL1 =
                                      (if \<not> HasSuffix (targetURL env) [clntSeparator env]
                                          \<and> IsDir (Type content)
                                       then targetURL env @ [clntSeparator env]
                                       else targetURL env)
                                in singleErrLoop url (clntRemoveOne env)
                                     (tr1 @ [Sent (contentOfURL targetURL1), Closed])))
                     else (ReturnNil, tr1))))"

text \<open>
  Modelled from the spec: \<open>isOlder\<close>, \<open>isNewer\<close> and \<open>ParseDuration\<close>, which
  \<open>removeSingle\<close> and \<open>removeRecursive\<close> call and the source files do not hold. The
  spec's scenario (with \<open>older-than="90d"\<close>, the entries aged 95 and 200 days are removed
  and the entry aged 10 days is not) and the usage text of the flags in \<open>rmFlags\<close>
  ("remove objects older than L days, M hours and N minutes", "remove objects newer
  than ...") fix what the callers need, since they skip an entry when the test answers
  true: \<open>isOlder\<close> answers true when the object's age is below the duration, \<open>isNewer\<close>
  when it is at least the duration. (The comments at the call sites, "Skip objects older
  than --older-than", and the spec's "skip if older/newer than a cutoff" read the other
  way; under that reading \<open>--older-than 90d\<close> would remove the entry aged 10 days only.
  The statement on the direction of the filter does not rest on this definition: it
  takes the age test as a parameter and that other reading as its hypothesis.)
  \<open>now\<close> is the clock and \<open>ParseDuration\<close> gives the duration in seconds; both are
  parameters.
\<close>

definition isOlder :: "int \<Rightarrow> (string \<Rightarrow> int) \<Rightarrow> int \<Rightarrow> string \<Rightarrow> bool" where
  "isOlder now ParseDuration ti olderRef = (now - ti < ParseDuration olderRef)"

text \<open>
  Modelled from the spec: \<open>isNewer\<close>, the counterpart of \<open>isOlder\<close> for the
  newer-than duration, not among the source files either.
\<close>

definition isNewer :: "int \<Rightarrow> (string \<Rightarrow> int) \<Rightarrow> int \<Rightarrow> string \<Rightarrow> bool" where
  "isNewer now ParseDuration ti newerRef = (now - ti \<ge> ParseDuration newerRef)"

subsection \<open>Vocabulary for the statements about the pipeline\<close>

text \<open>
  An entry of the listing is a candidate when it carries no error, has a timestamp, and
  neither age test asks to skip it. An entry is benign when it carries no error or one
  of insufficient permission.
\<close>

definition candidate ::
  "(int \<Rightarrow> string \<Rightarrow> bool) \<Rightarrow> (int \<Rightarrow> string \<Rightarrow> bool) \<Rightarrow> string \<Rightarrow> string \<Rightarrow> ClientContent \<Rightarrow> bool"
  where
  "candidate older newer olderThan newerThan c =
     (Err c = None \<and> Time c \<noteq> 0
      \<and> \<not> (olderThan \<noteq> [] \<and> older (Time c) olderThan)
      \<and> \<not> (newerThan \<noteq> [] \<and> newer (Time c) newerThan))"

definition benign :: "ClientContent \<Rightarrow> bool" where
  "benign c = (case Err c of None \<Rightarrow> True | Some err \<Rightarrow> isInsufficientPermission err)"

definition rmMsg :: "string \<Rightarrow> ClientContent \<Rightarrow> rmMessage" where
  "rmMsg alias c = \<lparr>Key = alias @ URL c, MsgSize = Size c\<rparr>"

text \<open>The events after the first logged failure that is not of insufficient permission.\<close>

fun afterFatal :: "event list \<Rightarrow> event list option" where
  "afterFatal [] = None"
| "afterFatal (Logged e m # evs) =
     (if isInsufficientPermission e then afterFatal evs else Some evs)"
| "afterFatal (ev # evs) = afterFatal evs"

text \<open>How often \<open>contentCh\<close> was closed.\<close>

definition closes :: "event list \<Rightarrow> nat" where
  "closes tr = length (filter (\<lambda>ev. ev = Closed) tr)"

text \<open>The events before \<open>contentCh\<close> is closed.\<close>

definition beforeClose :: "event list \<Rightarrow> event list" where
  "beforeClose tr = takeWhile (\<lambda>ev. ev \<noteq> Closed) tr"

text \<open>
  What a receiver that stops at the first failure other than insufficient permission
  takes from a channel holding \<open>errs\<close>: the failures up to and including that one.
\<close>

fun upToFatal :: "perr list \<Rightarrow> perr list" where
  "upToFatal [] = []"
| "upToFatal (e # es) = (if isInsufficientPermission e then e # upToFatal es else [e])"

text \<open>
  The contents that reach the backend when the candidates \<open>cs\<close> are offered one after the
  other, the channel of failures holds \<open>errs\<close>, and \<open>arr\<close> says how many failures come in
  while each candidate is offered: a candidate goes through when the failures that come
  in while it is offered are all of insufficient permission, and the first other failure
  ends the feeding with that candidate and all later ones not sent.
\<close>

fun sendable :: "nat list \<Rightarrow> perr list \<Rightarrow> ClientContent list \<Rightarrow> ClientContent list" where
  "sendable arr errs [] = []"
| "sendable arr errs (c # cs) =
     (let got = take (case arr of [] \<Rightarrow> 0 | n # ns \<Rightarrow> n) errs
      in if list_all isInsufficientPermission got
         then c # sendable (tl arr) (drop (length got) errs) cs
         else [])"

text \<open>
  The failures that come in while the candidates \<open>cs\<close> are offered, under the same
  reading of \<open>arr\<close>: all that arrive with each candidate as long as they are of
  insufficient permission, and of the first batch that holds another failure the part up
  to and including it.
\<close>

fun selected :: "nat list \<Rightarrow> perr list \<Rightarrow> ClientContent list \<Rightarrow> perr list" where
  "selected arr errs [] = []"
| "selected arr errs (c # cs) =
     (let got = take (case arr of [] \<Rightarrow> 0 | n # ns \<Rightarrow> n) errs
      in if list_all isInsufficientPermission got
         then got @ selected (tl arr) (drop (length got) errs) cs
         else upToFatal got)"

subsection \<open>Concrete entries and backends\<close>

definition entryAt :: "string \<Rightarrow> int \<Rightarrow> ClientContent" where
  "entryAt u t = (plainFile u)\<lparr>Time := t\<rparr>"

definition failedEntry :: "string \<Rightarrow> perr \<Rightarrow> ClientContent" where
  "failedEntry u err = (plainFile u)\<lparr>Err := Some err\<rparr>"

definition backend :: "ClientContent list \<Rightarrow> perr list \<Rightarrow> nat list \<Rightarrow> rmEnv" where
  "backend cs errs arr =
     \<lparr>targetAlias = ''s3'', newClientFromAlias = None, clntList = cs, clntRemove = errs,
      arrivals = arr\<rparr>"

definition backendOne :: "ClientContent list \<Rightarrow> string \<Rightarrow> perr option list \<Rightarrow> rmSingleEnv" where
  "backendOne contents expanded errs =
     \<lparr>statURL = Inr contents, targetURL = expanded, newClient = None,
      clntSeparator = CHR ''/'', clntRemoveOne = errs\<rparr>"

definition day :: int where
  "day = 86400"

text \<open>A \<open>ParseDuration\<close> that knows the one duration of the scenarios.\<close>

definition ParseDuration90 :: "string \<Rightarrow> int" where
  "ParseDuration90 s = (if s = ''90d'' then 90 * day else 0)"

section \<open>Copy/put pipeline: \<open>uploadSourceToTargetURL\<close> (common-methods.go)\<close>

text \<open>
  What the pipeline takes from outside the source files is a parameter: the functions of
  Go's library and of \<open>httpguts\<close>, \<open>filetype\<close> and \<open>minio-go\<close> that it calls, and the
  constants declared elsewhere in the package.
\<close>

record deps =
  CanonicalHeaderKey :: "string \<Rightarrow> string"
  ValidHeaderFieldName :: "string \<Rightarrow> bool"
  ValidHeaderFieldValue :: "string \<Rightarrow> bool"
  ToUpper :: "string \<Rightarrow> string"
  parseRFC3339 :: "string \<Rightarrow> int option"
  filetypeMatch :: "string \<Rightarrow> perr + string"
  filepathSeparator :: char
  AmzObjectLockMode :: string
  AmzObjectLockRetainUntilDate :: string
  AmzObjectLockLegalHold :: string
  serverEncryptionKeyPrefix :: string
  LegalHoldEnabledStatus :: string
  LegalHoldDisabledStatus :: string
  errInvalidArgument :: perr

text \<open>
  A reader as \<open>Get\<close> returns it: whether it is a \<open>*minio.Object\<close> and what its \<open>Stat\<close>
  gives (the error, or the metadata with the first value of each key), whether it is an
  \<open>*os.File\<close> and under which name, whether it is an \<open>io.Seeker\<close>, the bytes that a read
  of up to 512 bytes gives, and whether seeking back fails.
\<close>

record Reader =
  isMinioObject :: bool
  objectStat :: "perr + gomap"
  isOSFile :: bool
  fileName :: string
  isSeeker :: bool
  head512 :: string
  seekError :: "perr option"

text \<open>
  The backend and the helpers that are not among the source files, by their answers:
  \<open>parseRetentionValidity\<close>, \<open>getRetainUntilDate\<close>, the error of \<open>newClientFromAlias\<close>
  for an alias and URL (if any), and the results of the client's \<open>Stat\<close>, \<open>Get\<close>, \<open>Put\<close>,
  \<open>Copy\<close> and \<open>PutObjectRetention\<close>.
\<close>

record upEnv =
  parseRetentionValidity :: "string \<Rightarrow> string \<Rightarrow> perr + nat \<times> string"
  getRetainUntilDate :: "nat \<Rightarrow> string \<Rightarrow> perr + string"
  clientError :: "string \<Rightarrow> string \<Rightarrow> perr option"
  clntStat :: "perr + ClientContent"
  clntGet :: "perr + Reader"
  clntPut :: "perr option"
  clntCopy :: "perr option"
  clntPutObjectRetention :: "perr option"

record URLs =
  SourceAlias :: string
  SourceContent :: ClientContent
  TargetAlias :: string
  TargetContent :: ClientContent
  MD5 :: bool
  DisableMultipart :: bool

text \<open>
  The calls on a backend client, in program order, with the arguments that matter here
  (encryption keys and the progress reader are passed through and left out). \<open>PutCall\<close>
  says whether the reader was bounded with \<open>io.LimitReader\<close>; the retain-until date of
  \<open>PutObjectRetentionCall\<close> is \<open>None\<close> for \<open>timeSentinel\<close>.
\<close>

datatype call =
    StatCall string string
  | ObjectStatCall
  | GetCall string string
  | PutCall string string bool int gomap bool bool
  | CopyCall string string string int gomap bool
  | PutObjectRetentionCall string string string "int option"

text \<open>\<open>for k, v := range m { metadata[http.CanonicalHeaderKey(k)] = v }\<close>\<close>

definition mergeCanonical :: "deps \<Rightarrow> gomap \<Rightarrow> gomap \<Rightarrow> gomap" where
  "mergeCanonical d metadata m =
     foldl (\<lambda>md (k, v). AList.update (CanonicalHeaderKey d k) v md) metadata m"

definition validHeader :: "deps \<Rightarrow> string \<times> string \<Rightarrow> bool" where
  "validHeader d kv = (ValidHeaderFieldName d (fst kv) \<and> ValidHeaderFieldValue d (snd kv))"

definition filterMetadata :: "deps \<Rightarrow> gomap \<Rightarrow> gomap" where
  "filterMetadata d metadata =
     (let newMetadata = filter (validHeader d) metadata
      in foldl (\<lambda>nm (k, v).
                  if HasPrefix (CanonicalHeaderKey d k)
                       (CanonicalHeaderKey d (serverEncryptionKeyPrefix d))
                  then AList.delete k nm else nm)
           newMetadata metadata)"

definition probeContentType :: "deps \<Rightarrow> Reader \<Rightarrow> string \<times> perr option" where
  "probeContentType d reader =
     (let ctype = ''application/octet-stream''
      in if isSeeker reader
         then
           if length (head512 reader) \<le> 0 then (ctype, None)
           else (case filetypeMatch d (head512 reader) of
                   Inl e \<Rightarrow> (ctype, Some e)
                 | Inr mime \<Rightarrow>
                     (case seekError reader of
                        Some e \<Rightarrow> (ctype, Some e)
                      | None \<Rightarrow> (if mime \<noteq> [] then mime else ctype, None)))
         else (ctype, None))"

definition isReadAt :: "Reader \<Rightarrow> bool" where
  "isReadAt reader =
     (isOSFile reader
      \<and> fileName reader \<notin> set [''/dev/stdin'', ''/dev/stdout'', ''/dev/stderr''])"

definition getSourceStream ::
  "deps \<Rightarrow> upEnv \<Rightarrow> string \<Rightarrow> string \<Rightarrow> bool \<Rightarrow> bool \<Rightarrow> (perr + Reader \<times> gomap) \<times> call list" where
  "getSourceStream d env alias urlStr fetchStat preserve =
     (case clientError env alias urlStr of
        Some err \<Rightarrow> (Inl err, [])
      | None \<Rightarrow>
         (case clntGet env of
            Inl err \<Rightarrow> (Inl err, [GetCall alias urlStr])
          | Inr reader \<Rightarrow>
              if fetchStat
              then
                (let mok = isMinioObject reader;
                     st = (if mok then objectStat reader
                           else (case clntStat env of
                                   Inl err \<Rightarrow> Inl err
                                 | Inr content \<Rightarrow> Inr (Metadata content)));
                     calls = [GetCall alias urlStr,
                              if mok then ObjectStatCall else StatCall alias urlStr]
                 in case st of
                      Inl err \<Rightarrow> (Inl err, calls)
                    | Inr stMetadata \<Rightarrow>
                        (let metadata = filter (validHeader d) stMetadata
                         in if map_of metadata ''Content-Type'' = Some ''application/octet-stream''
                               \<and> \<not> mok
                            then (case probeContentType d reader of
                                    (ctype, Some err) \<Rightarrow> (Inl err, calls)
                                  | (ctype, None) \<Rightarrow>
                                      (Inr (reader, AList.update ''Content-Type'' ctype metadata),
                                       calls))
                            else (Inr (reader, metadata), calls)))
              else (Inr (reader, []), [GetCall alias urlStr])))"

definition putTargetRetention ::
  "deps \<Rightarrow> upEnv \<Rightarrow> string \<Rightarrow> string \<Rightarrow> gomap \<Rightarrow> perr option \<times> call list" where
  "putTargetRetention d env alias urlStr metadata =
     (case clientError env alias urlStr of
        Some err \<Rightarrow> (Some err, [])
      | None \<Rightarrow>
         (let lockMode = (case map_of metadata (AmzObjectLockMode d) of
                            Some lockModeStr \<Rightarrow> lockModeStr | None \<Rightarrow> []);
              retainUntilDate = (case map_of metadata (AmzObjectLockRetainUntilDate d) of
                                   Some retainUntilDateStr \<Rightarrow> parseRFC3339 d retainUntilDateStr
                                 | None \<Rightarrow> None)
          in (clntPutObjectRetention env,
              [PutObjectRetentionCall alias urlStr lockMode retainUntilDate])))"

definition putTargetStream ::
  "deps \<Rightarrow> upEnv \<Rightarrow> string \<Rightarrow> string \<Rightarrow> string \<Rightarrow> string \<Rightarrow> string \<Rightarrow> bool \<Rightarrow> int \<Rightarrow> gomap \<Rightarrow>
   bool \<Rightarrow> bool \<Rightarrow> perr option \<times> call list" where
  "putTargetStream d env alias urlStr mode until legalHold limited sz metadata md5
     disableMultipart =
     (case clientError env alias urlStr of
        Some err \<Rightarrow> (Some err, [])
      | None \<Rightarrow>
         (let metadata1 = (if mode \<noteq> [] then AList.update (AmzObjectLockMode d) mode metadata
                           else metadata);
              metadata2 = (if until \<noteq> []
                           then AList.update (AmzObjectLockRetainUntilDate d) until metadata1
                           else metadata1);
              metadata3 = (if legalHold \<noteq> []
                           then AList.update (AmzObjectLockLegalHold d) legalHold metadata2
                           else metadata2)
          in (clntPut env, [PutCall alias urlStr limited sz metadata3 md5 disableMultipart])))"

definition copySourceToTargetURL ::
  "deps \<Rightarrow> upEnv \<Rightarrow> string \<Rightarrow> string \<Rightarrow> string \<Rightarrow> string \<Rightarrow> string \<Rightarrow> string \<Rightarrow> int \<Rightarrow> gomap \<Rightarrow>
   bool \<Rightarrow> perr option \<times> call list" where
  "copySourceToTargetURL d env alias urlStr source mode until legalHold sz metadata
     disableMultipart =
     (case clientError env alias urlStr of
        Some err \<Rightarrow> (Some err, [])
      | None \<Rightarrow>
         (let metadata1 = AList.update (AmzObjectLockMode d) mode metadata;
              metadata2 = AList.update (AmzObjectLockRetainUntilDate d) until metadata1;
              metadata3 = AList.update (AmzObjectLockLegalHold d) legalHold metadata2
          in (clntCopy env, [CopyCall alias urlStr source sz metadata3 disableMultipart])))"

definition getAllMetadata ::
  "deps \<Rightarrow> upEnv \<Rightarrow> string \<Rightarrow> string \<Rightarrow> URLs \<Rightarrow> bool \<Rightarrow> (perr + gomap) \<times> call list" where
  "getAllMetadata d env sourceAlias sourceURLStr urls preserve =
     (case clientError env sourceAlias sourceURLStr of
        Some err \<Rightarrow> (Inl err, [])
      | None \<Rightarrow>
         (case clntStat env of
            Inl err \<Rightarrow> (Inl err, [StatCall sourceAlias sourceURLStr])
          | Inr st \<Rightarrow>
              (Inr (filterMetadata d
                      (mergeCanonical d (mergeCanonical d [] (Metadata st))
                         (UserMetadata (TargetContent urls)))),
               [StatCall sourceAlias sourceURLStr])))"

text \<open>
  The first part of \<open>uploadSourceToTargetURL\<close>: the retention and legal-hold fields the
  target asks for. The result is the error returned, or \<open>(mode, until, legalHold)\<close>.
\<close>

definition targetLockFields :: "deps \<Rightarrow> upEnv \<Rightarrow> URLs \<Rightarrow> perr + string \<times> string \<times> string" where
  "targetLockFields d env urls =
     (case (if RetentionEnabled (TargetContent urls)
            then (case parseRetentionValidity env (RetentionDuration (TargetContent urls))
                         (ToUpper d (RetentionMode (TargetContent urls))) of
                    Inl err \<Rightarrow> Inl err
                  | Inr (dur, unit) \<Rightarrow>
                      (case getRetainUntilDate env dur unit of
                         Inl err \<Rightarrow> Inl err
                       | Inr until \<Rightarrow> Inr (RetentionMode (TargetContent urls), until)))
            else Inr ([], [])) of
        Inl err \<Rightarrow> Inl err
      | Inr (mode, until) \<Rightarrow>
          if LegalHoldEnabled (TargetContent urls)
          then
            if LegalHold (TargetContent urls) = LegalHoldDisabledStatus d
               \<or> LegalHold (TargetContent urls) = LegalHoldEnabledStatus d
            then Inr (mode, until, LegalHold (TargetContent urls))
            else Inl (errInvalidArgument d)
          else Inr (mode, until, []))"

text \<open>
  The metadata of the retention branches and of the same-alias branch: what the caller
  put into the source content, or what \<open>getAllMetadata\<close> gives when that is empty, then
  the target's \<open>Metadata\<close>, then its \<open>UserMetadata\<close>.
\<close>

definition populatedMetadata ::
  "deps \<Rightarrow> upEnv \<Rightarrow> URLs \<Rightarrow> bool \<Rightarrow> gomap \<Rightarrow> (perr + gomap) \<times> call list" where
  "populatedMetadata d env urls preserve metadata =
     (case (if length metadata = 0
            then getAllMetadata d env (SourceAlias urls) (URL (SourceContent urls)) urls preserve
            else (Inr metadata, [])) of
        (Inl err, calls) \<Rightarrow> (Inl err, calls)
      | (Inr metadata1, calls) \<Rightarrow>
          (Inr (mergeCanonical d (mergeCanonical d metadata1 (Metadata (TargetContent urls)))
                  (UserMetadata (TargetContent urls))),
           calls))"

definition uploadSourceToTargetURL ::
  "deps \<Rightarrow> upEnv \<Rightarrow> URLs \<Rightarrow> bool \<Rightarrow> perr option \<times> call list" where
  "uploadSourceToTargetURL d env urls preserve =
     (let sourceAlias = SourceAlias urls;
          sourceURL = URL (SourceContent urls);
          targetAlias = TargetAlias urls;
          targetURL = URL (TargetContent urls);
          length1 = Size (SourceContent urls)
      in case targetLockFields d env urls of
           Inl err \<Rightarrow> (Some err, [])
         | Inr (mode, until, legalHold) \<Rightarrow>
            (let metadata =
                   mergeCanonical d (mergeCanonical d [] (UserMetadata (SourceContent urls)))
                     (Metadata (SourceContent urls))
             in if sourceAlias = targetAlias
                then
                  (case populatedMetadata d env urls preserve metadata of
                     (Inl err, calls) \<Rightarrow> (Some err, calls)
                   | (Inr metadata1, calls) \<Rightarrow>
                       (let sourcePath = ToSlash (filepathSeparator d) sourceURL
                        in if RetentionEnabled (SourceContent urls)
                           then (case putTargetRetention d env targetAlias targetURL metadata1 of
                                   (err, calls1) \<Rightarrow> (err, calls @ calls1))
                           else (case copySourceToTargetURL d env targetAlias targetURL
                                        sourcePath mode until legalHold length1
                                        (filterMetadata d metadata1) (DisableMultipart urls) of
                                   (err, calls1) \<Rightarrow> (err, calls @ calls1))))
                else
                  if RetentionEnabled (SourceContent urls)
                  then
                    (case populatedMetadata d env urls preserve metadata of
                       (Inl err, calls) \<Rightarrow> (Some err, calls)
                     | (Inr metadata1, calls) \<Rightarrow>
                         (case putTargetRetention d env targetAlias targetURL metadata1 of
                            (err, calls1) \<Rightarrow> (err, calls @ calls1)))
                  else
                    (case getSourceStream d env sourceAlias sourceURL True preserve of
                       (Inl err, calls) \<Rightarrow> (Some err, calls)
                     | (Inr (reader, metadata1), calls) \<Rightarrow>
                         (let metadata2 =
                                mergeCanonical d
                                  (mergeCanonical d metadata1 (Metadata (TargetContent urls)))
                                  (UserMetadata (TargetContent urls))
                          in case putTargetStream d env targetAlias targetURL mode until
                                    legalHold (\<not> isReadAt reader) length1
                                    (filterMetadata d metadata2) (MD5 urls)
                                    (DisableMultipart urls) of
                               (err, calls1) \<Rightarrow> (err, calls @ calls1)))))"

subsection \<open>Vocabulary for the statements about the pipeline\<close>

fun isGet :: "call \<Rightarrow> bool" where
  "isGet (GetCall alias u) = True"
| "isGet c = False"

fun isPut :: "call \<Rightarrow> bool" where
  "isPut (PutCall alias u limited sz md md5 dm) = True"
| "isPut c = False"

fun isCopy :: "call \<Rightarrow> bool" where
  "isCopy (CopyCall alias u source sz md dm) = True"
| "isCopy c = False"

fun isPutObjectRetention :: "call \<Rightarrow> bool" where
  "isPutObjectRetention (PutObjectRetentionCall alias u mode until) = True"
| "isPutObjectRetention c = False"

text \<open>A call that neither reads or writes content nor changes retention.\<close>

definition quiet :: "call \<Rightarrow> bool" where
  "quiet c = (\<not> isGet c \<and> \<not> isPut c \<and> \<not> isCopy c \<and> \<not> isPutObjectRetention c)"

text \<open>
  The map that one layer contributes: keys in canonical form, and of two keys with the
  same canonical form the one visited last wins.
\<close>

definition layer :: "deps \<Rightarrow> gomap \<Rightarrow> (string \<rightharpoonup> string)" where
  "layer d m = map_of (rev (map (\<lambda>(k, v). (CanonicalHeaderKey d k, v)) m))"

text \<open>
  What the final filtering keeps of a map: the entries that are valid as a header and
  whose key, in canonical form, does not start with the prefix of the encryption keys.
\<close>

definition kept :: "deps \<Rightarrow> (string \<rightharpoonup> string) \<Rightarrow> (string \<rightharpoonup> string)" where
  "kept d M =
     (\<lambda>k. case M k of
            None \<Rightarrow> None
          | Some v \<Rightarrow>
              if validHeader d (k, v)
                 \<and> \<not> HasPrefix (CanonicalHeaderKey d k)
                       (CanonicalHeaderKey d (serverEncryptionKeyPrefix d))
              then Some v else None)"

text \<open>The metadata the caller put into the source content, merged as the function does.\<close>

definition callerMetadata :: "deps \<Rightarrow> URLs \<Rightarrow> gomap" where
  "callerMetadata d urls =
     mergeCanonical d (mergeCanonical d [] (UserMetadata (SourceContent urls)))
       (Metadata (SourceContent urls))"

subsection \<open>A concrete library, backend and transfer\<close>

text \<open>
  Header keys and values as Go's \<open>textproto\<close> and \<open>httpguts\<close> treat them: a key made of
  token characters gets an upper-case letter first and after each hyphen and lower-case
  letters elsewhere, any other key is left as it is; a name is valid when it is not empty
  and made of token characters; a value is valid when it has no control character other
  than the tab. In the examples no date is parsed and no file type recognised.
\<close>

definition isTokenChar :: "char \<Rightarrow> bool" where
  "isTokenChar c =
     (let n = (of_char c :: nat)
      in (97 \<le> n \<and> n \<le> 122) \<or> (65 \<le> n \<and> n \<le> 90) \<or> (48 \<le> n \<and> n \<le> 57)
         \<or> c \<in> set ''!#$%&*+-.^_|~'' \<or> n = 39 \<or> n = 96)"

definition toUpperChar :: "char \<Rightarrow> char" where
  "toUpperChar c =
     (let n = (of_char c :: nat) in if 97 \<le> n \<and> n \<le> 122 then char_of (n - 32) else c)"

definition toLowerChar :: "char \<Rightarrow> char" where
  "toLowerChar c =
     (let n = (of_char c :: nat) in if 65 \<le> n \<and> n \<le> 90 then char_of (n + 32) else c)"

fun canonicalize :: "bool \<Rightarrow> string \<Rightarrow> string" where
  "canonicalize upper [] = []"
| "canonicalize upper (c # cs) =
     (if upper then toUpperChar c else toLowerChar c) # canonicalize (c = CHR ''-'') cs"

definition CanonicalMIMEHeaderKey :: "string \<Rightarrow> string" where
  "CanonicalMIMEHeaderKey s = (if list_all isTokenChar s then canonicalize True s else s)"

definition validFieldName :: "string \<Rightarrow> bool" where
  "validFieldName s = (s \<noteq> [] \<and> list_all isTokenChar s)"

definition validFieldValue :: "string \<Rightarrow> bool" where
  "validFieldValue s =
     list_all (\<lambda>c. let n = (of_char c :: nat) in \<not> ((n < 32 \<or> n = 127) \<and> n \<noteq> 9)) s"

definition exampleDeps :: deps where
  "exampleDeps =
     \<lparr>CanonicalHeaderKey = CanonicalMIMEHeaderKey,
      ValidHeaderFieldName = validFieldName,
      ValidHeaderFieldValue = validFieldValue,
      ToUpper = map toUpperChar,
      parseRFC3339 = (\<lambda>s. None),
      filetypeMatch = (\<lambda>b. Inr []),
      filepathSeparator = CHR ''/'',
      AmzObjectLockMode = ''X-Amz-Object-Lock-Mode'',
      AmzObjectLockRetainUntilDate = ''X-Amz-Object-Lock-Retain-Until-Date'',
      AmzObjectLockLegalHold = ''X-Amz-Object-Lock-Legal-Hold'',
      serverEncryptionKeyPrefix = ''x-amz-server-side-encryption'',
      LegalHoldEnabledStatus = ''ON'',
      LegalHoldDisabledStatus = ''OFF'',
      errInvalidArgument = OtherError ''Invalid arguments provided''\<rparr>"

text \<open>A backend on which every call succeeds; \<open>Stat\<close> and \<open>Get\<close> give a plain file.\<close>

definition plainReader :: Reader where
  "plainReader =
     \<lparr>isMinioObject = False, objectStat = Inr [], isOSFile = True, fileName = ''/tmp/file.txt'',
      isSeeker = True, head512 = [], seekError = None\<rparr>"

definition exampleEnv :: upEnv where
  "exampleEnv =
     \<lparr>parseRetentionValidity = (\<lambda>duration mode. Inr (30, ''DAYS'')),
      getRetainUntilDate = (\<lambda>dur unit. Inr ''2030-01-01T00:00:00Z''),
      clientError = (\<lambda>alias u. None),
      clntStat = Inr (plainFile ''/bucket/file.txt''),
      clntGet = Inr plainReader,
      clntPut = None,
      clntCopy = None,
      clntPutObjectRetention = None\<rparr>"

definition ownerSource :: ClientContent where
  "ownerSource =
     (plainFile ''/bucket/file.txt'')\<lparr>
        UserMetadata := [(''X-Amz-Meta-Owner'', ''user-supplied'')],
        Metadata := [(''X-Amz-Meta-Owner'', ''stored'')]\<rparr>"

definition retainedSource :: ClientContent where
  "retainedSource =
     (plainFile ''/bucket/file.txt'')\<lparr>
        RetentionEnabled := True,
        UserMetadata := [(''X-Amz-Object-Lock-Mode'', ''GOVERNANCE'')]\<rparr>"

definition transfer :: "string \<Rightarrow> ClientContent \<Rightarrow> string \<Rightarrow> ClientContent \<Rightarrow> URLs" where
  "transfer srcAlias src tgtAlias tgt =
     \<lparr>SourceAlias = srcAlias, SourceContent = src, TargetAlias = tgtAlias,
      TargetContent = tgt, MD5 = False, DisableMultipart = False\<rparr>"

section \<open>Properties of the location resolver\<close>

lemma length_Split: "length (Split s sep) = Suc (count_list s sep)"
  by (induction s) (auto split: list.splits)

lemma Split_not_Nil: "Split s sep \<noteq> []"
  using length_Split [of s sep] by auto

lemma HasSuffix_single: "HasSuffix s [c] = (s \<noteq> [] \<and> last s = c)"
proof (cases s rule: rev_cases)
  case Nil
  then show ?thesis by (simp add: HasSuffix_def)
next
  case (snoc ys y)
  then show ?thesis by (auto simp: HasSuffix_def)
qed

lemma ToSlash_unix: "ToSlash (CHR ''/'') p = p"
  by (simp add: ToSlash_def)

text \<open>
  C9. \<open>isAliasURLDir\<close> answers with the directory bit of the stat result when the URL
  exists. When it does not: for a filesystem URL (the alias expansion left it unchanged)
  the answer is whether the URL ends with the path separator; for an aliased URL, with
  the URL brought to slashes and cut at every slash, one segment (no slash) gives false,
  exactly two segments (one slash) give true, and three or more segments give true
  exactly when the URL ends with a slash. So a nonexistent \<open>s3/bucket\<close> is a directory,
  \<open>s3\<close> alone is not, and an existing plain object \<open>s3/bucket/file\<close> is not.
\<close>

theorem isAliasURLDir_tiers:
  "(\<forall>c. isAliasURLDir Separator (Inr c) expandedURL aliasURL = IsDir (Type c))
   \<and> (expandedURL = aliasURL \<longrightarrow>
        isAliasURLDir Separator (Inl e) expandedURL aliasURL
          = (aliasURL \<noteq> [] \<and> last aliasURL = Separator))
   \<and> (expandedURL \<noteq> aliasURL \<longrightarrow>
        (let pathURL = ToSlash Separator aliasURL;
             segments = Suc (count_list pathURL (CHR ''/''))
         in (segments = 1 \<longrightarrow> \<not> isAliasURLDir Separator (Inl e) expandedURL aliasURL)
          \<and> (segments = 2 \<longrightarrow> isAliasURLDir Separator (Inl e) expandedURL aliasURL)
          \<and> (3 \<le> segments \<longrightarrow>
               isAliasURLDir Separator (Inl e) expandedURL aliasURL
                 = (pathURL \<noteq> [] \<and> last pathURL = CHR ''/''))))
   \<and> ToSlash (CHR ''/'') aliasURL = aliasURL
   \<and> (expandedURL \<noteq> ''s3/bucket'' \<longrightarrow>
        isAliasURLDir (CHR ''/'') (Inl e) expandedURL ''s3/bucket'')
   \<and> (expandedURL \<noteq> ''s3'' \<longrightarrow>
        \<not> isAliasURLDir (CHR ''/'') (Inl e) expandedURL ''s3'')
   \<and> \<not> isAliasURLDir (CHR ''/'') (Inr (plainFile ''s3/bucket/file'')) expandedURL
          ''s3/bucket/file''"
proof -
  have dirbit: "\<not> IsDir (436 :: 32 word)"
    by (simp add: IsDir_def ModeDir_def)
  show ?thesis
    by (simp add: isAliasURLDir_def Let_def length_Split Split_not_Nil HasSuffix_single
        ToSlash_unix plainFile_def dirbit)
qed

theorem isAliasURLDir_tiers_witness:
  "isAliasURLDir (CHR ''/'') (Inl (OtherError ''not found'')) ''https://s3.example.com/bucket/a/''
      ''s3/bucket/a/''
   \<and> isAliasURLDir (CHR ''/'') (Inl (OtherError ''not found'')) ''/tmp/dir/'' ''/tmp/dir/''"
proof -
  have a: "''https://s3.example.com/bucket/a/'' \<noteq> ''s3/bucket/a/''"
    by simp
  have n: "3 \<le> Suc (count_list (ToSlash (CHR ''/'') ''s3/bucket/a/'') (CHR ''/''))"
    by (simp add: ToSlash_unix)
  have l: "ToSlash (CHR ''/'') ''s3/bucket/a/'' \<noteq> []
           \<and> last (ToSlash (CHR ''/'') ''s3/bucket/a/'') = CHR ''/''"
    by (simp add: ToSlash_unix)
  from isAliasURLDir_tiers [of "CHR ''/''" "''https://s3.example.com/bucket/a/''"
      "''s3/bucket/a/''" "OtherError ''not found''"] a n l
  have one: "isAliasURLDir (CHR ''/'') (Inl (OtherError ''not found''))
      ''https://s3.example.com/bucket/a/'' ''s3/bucket/a/''"
    by (simp add: Let_def)
  from isAliasURLDir_tiers [of "CHR ''/''" "''/tmp/dir/''" "''/tmp/dir/''"
      "OtherError ''not found''"]
  have two: "isAliasURLDir (CHR ''/'') (Inl (OtherError ''not found'')) ''/tmp/dir/'' ''/tmp/dir/''"
    by simp
  from one two show ?thesis by simp
qed

section \<open>Properties of the encryption key registry\<close>

lemma div3_step: "(5 + n) div 3 = Suc (Suc (Suc n) div 3)" for n :: nat
  by presburger

lemma length_decodeQuanta:
  "decodeQuanta s = Some d \<Longrightarrow> length s = 4 * ((length d + 2) div 3)"
proof (induction s arbitrary: d rule: decodeQuanta.induct)
  case (2 a b c d rest)
  then show ?case
    by (auto split: option.splits if_splits simp: assemble_def Let_def div3_step)
qed simp_all

lemma DecodeString_44:
  assumes "DecodeString k = Some d" and "length d = 32" and "\<forall>c \<in> set k. \<not> isNewline c"
  shows "length k = 44"
proof -
  from assms(3) have "filter (\<lambda>c. \<not> isNewline c) k = k"
    by (simp add: filter_id_conv)
  with assms(1) have "decodeQuanta k = Some d"
    by (simp add: DecodeString_def)
  from length_decodeQuanta [OF this] assms(2) show ?thesis
    by simp
qed

lemma SplitN2_no_sep: "sep \<notin> set s \<Longrightarrow> SplitN2 s sep = [s]"
  by (induction s) (auto split: list.splits)

lemma SplitN2_sep: "sep \<notin> set p \<Longrightarrow> SplitN2 (p @ sep # k) sep = [p, k]"
  by (induction p) (auto split: list.splits)

lemma SplitN2_cases:
  "(sep \<notin> set s \<and> SplitN2 s sep = [s])
   \<or> (\<exists>p k. s = p @ sep # k \<and> sep \<notin> set p \<and> SplitN2 s sep = [p, k])"
proof (cases "sep \<in> set s")
  case True
  then obtain p k where "s = p @ sep # k" "sep \<notin> set p"
    by (auto dest: split_list_first)
  then show ?thesis using SplitN2_sep by blast
next
  case False
  then show ?thesis by (simp add: SplitN2_no_sep)
qed

lemma parseKey_no_sep: "CHR ''='' \<notin> set entry \<Longrightarrow> parseKey entry = Inl errPrefixForm"
  by (simp add: parseKey_def SplitN2_no_sep)

lemma parseKey_sep:
  "CHR ''='' \<notin> set p \<Longrightarrow>
   parseKey (p @ CHR ''='' # k) =
     (if length k = 32 then Inr (p @ CHR ''='' # k)
      else case DecodeString k of
             None \<Rightarrow> Inl errKeyLength
           | Some d \<Rightarrow> if length d = 32 then Inr (p @ CHR ''='' # d) else Inl errKeyLength)"
  by (simp add: parseKey_def SplitN2_sep split: option.splits)

lemmas b64_eval = DecodeString_def isNewline_def decodeMap_def assemble_def padChar_def
  char_of_def bit_0

lemma getDecodedKey_loop_accepts:
  "(\<exists>r. getDecodedKey_loop xs i ks = Inr r) = (\<forall>x \<in> set xs. \<exists>r. parseKey x = Inr r)"
proof (induction xs arbitrary: i ks)
  case Nil
  then show ?case by simp
next
  case (Cons x xs)
  show ?case
  proof (cases "parseKey x")
    case (Inl e)
    then show ?thesis by (auto simp: Let_def)
  next
    case (Inr r)
    then show ?thesis using Cons.IH by (simp add: Let_def)
  qed
qed

text \<open>
  C8 (as the code has it). \<open>parseKey\<close> rejects an entry without \<open>=\<close>. For an entry
  \<open>prefix=key\<close>, cut at the first \<open>=\<close>: a key of exactly 32 bytes is accepted and the
  entry returned unchanged; any other key is accepted exactly when the base64 decoder
  yields 32 bytes for it, and the key is then replaced by these bytes; such a key has 44
  characters when it holds no carriage return or line feed (the decoder skips those, so
  longer keys are accepted too); every other key is a validation error. \<open>getDecodedKey\<close>
  accepts a comma-separated list exactly when \<open>parseKey\<close> accepts each entry.
\<close>

theorem parseKey_accepts:
  "(CHR ''='' \<notin> set entry \<longrightarrow> parseKey entry = Inl errPrefixForm)
   \<and> (CHR ''='' \<notin> set p \<longrightarrow>
        (length k = 32 \<longrightarrow> parseKey (p @ ''='' @ k) = Inr (p @ ''='' @ k))
      \<and> (\<forall>d. length k \<noteq> 32 \<and> DecodeString k = Some d \<and> length d = 32 \<longrightarrow>
             parseKey (p @ ''='' @ k) = Inr (p @ ''='' @ d)
             \<and> ((\<forall>c \<in> set k. \<not> isNewline c) \<longrightarrow> length k = 44))
      \<and> (length k \<noteq> 32 \<and> (\<forall>d. DecodeString k = Some d \<longrightarrow> length d \<noteq> 32) \<longrightarrow>
             parseKey (p @ ''='' @ k) = Inl errKeyLength))
   \<and> ((\<exists>r. getDecodedKey sseKeys = Inr r)
        = (\<forall>x \<in> set (Split sseKeys (CHR '','')). \<exists>r. parseKey x = Inr r))"
proof -
  have a: "CHR ''='' \<notin> set entry \<longrightarrow> parseKey entry = Inl errPrefixForm"
    by (simp add: parseKey_no_sep)
  have b: "CHR ''='' \<notin> set p \<longrightarrow>
        (length k = 32 \<longrightarrow> parseKey (p @ ''='' @ k) = Inr (p @ ''='' @ k))
      \<and> (\<forall>d. length k \<noteq> 32 \<and> DecodeString k = Some d \<and> length d = 32 \<longrightarrow>
             parseKey (p @ ''='' @ k) = Inr (p @ ''='' @ d)
             \<and> ((\<forall>c \<in> set k. \<not> isNewline c) \<longrightarrow> length k = 44))
      \<and> (length k \<noteq> 32 \<and> (\<forall>d. DecodeString k = Some d \<longrightarrow> length d \<noteq> 32) \<longrightarrow>
             parseKey (p @ ''='' @ k) = Inl errKeyLength)"
    using DecodeString_44 [of k] by (auto simp: parseKey_sep split: option.splits)
  have c: "(\<exists>r. getDecodedKey sseKeys = Inr r)
        = (\<forall>x \<in> set (Split sseKeys (CHR '','')). \<exists>r. parseKey x = Inr r)"
    unfolding getDecodedKey_def by (rule getDecodedKey_loop_accepts)
  from a b c show ?thesis by blast
qed

theorem parseKey_accepts_witness:
  "parseKey ''logs/=MTIzNDU2Nzg5MDEyMzQ1Njc4OTAxMjM0NTY3ODkwMTI=''
     = Inr ''logs/=12345678901234567890123456789012''
   \<and> parseKey ''logs/=12345678901234567890123456789012''
     = Inr ''logs/=12345678901234567890123456789012''
   \<and> parseKey ''logs/=tooshort'' = Inl errKeyLength
   \<and> parseKey ''logs/'' = Inl errPrefixForm"
proof -
  have p: "CHR ''='' \<notin> set ''logs/''"
    by simp
  have dec: "DecodeString ''MTIzNDU2Nzg5MDEyMzQ1Njc4OTAxMjM0NTY3ODkwMTI=''
               = Some ''12345678901234567890123456789012''"
    by (simp add: b64_eval)
  have short: "DecodeString ''tooshort'' = Some [CHR 0xB6, CHR 0x8A, CHR 0x2C, CHR 0x86, CHR 0x8A, CHR 0xED]"
    by (simp add: b64_eval)
  have one: "parseKey (''logs/'' @ ''='' @ ''MTIzNDU2Nzg5MDEyMzQ1Njc4OTAxMjM0NTY3ODkwMTI='')
     = Inr (''logs/'' @ ''='' @ ''12345678901234567890123456789012'')"
    using parseKey_accepts [of "[]" "''logs/''" "''MTIzNDU2Nzg5MDEyMzQ1Njc4OTAxMjM0NTY3ODkwMTI=''" "[]"]
      p dec by simp
  have two: "parseKey (''logs/'' @ ''='' @ ''12345678901234567890123456789012'')
     = Inr (''logs/'' @ ''='' @ ''12345678901234567890123456789012'')"
    using parseKey_accepts [of "[]" "''logs/''" "''12345678901234567890123456789012''" "[]"] p
    by simp
  have three: "parseKey (''logs/'' @ ''='' @ ''tooshort'') = Inl errKeyLength"
    using parseKey_accepts [of "[]" "''logs/''" "''tooshort''" "[]"] p short
    by simp
  have four: "parseKey ''logs/'' = Inl errPrefixForm"
    using parseKey_accepts [of "''logs/''" "[]" "[]" "[]"] by simp
  from one two three four show ?thesis by simp
qed

text \<open>
  C8 as stated fails: a key of 45 bytes (44 base64 characters and a line feed) is neither
  32 nor 44 bytes long, and \<open>parseKey\<close> accepts it.
\<close>

theorem parseKey_length_counterexample:
  "length (''AAAAAAAAAAAAAAAAAAAAAAAAAAAAAAAAAAAAAAAAAAA='' @ [CHR 0x0A]) = 45
   \<and> parseKey (''logs/='' @ ''AAAAAAAAAAAAAAAAAAAAAAAAAAAAAAAAAAAAAAAAAAA='' @ [CHR 0x0A])
       = Inr (''logs/='' @ [CHR 0x00, CHR 0x00, CHR 0x00, CHR 0x00, CHR 0x00, CHR 0x00, CHR 0x00, CHR 0x00,
          CHR 0x00, CHR 0x00, CHR 0x00, CHR 0x00, CHR 0x00, CHR 0x00, CHR 0x00, CHR 0x00,
          CHR 0x00, CHR 0x00, CHR 0x00, CHR 0x00, CHR 0x00, CHR 0x00, CHR 0x00, CHR 0x00,
          CHR 0x00, CHR 0x00, CHR 0x00, CHR 0x00, CHR 0x00, CHR 0x00, CHR 0x00, CHR 0x00])"
proof -
  have dec45: "DecodeString (''AAAAAAAAAAAAAAAAAAAAAAAAAAAAAAAAAAAAAAAAAAA='' @ [CHR 0x0A])
       = Some [CHR 0x00, CHR 0x00, CHR 0x00, CHR 0x00, CHR 0x00, CHR 0x00, CHR 0x00, CHR 0x00,
          CHR 0x00, CHR 0x00, CHR 0x00, CHR 0x00, CHR 0x00, CHR 0x00, CHR 0x00, CHR 0x00,
          CHR 0x00, CHR 0x00, CHR 0x00, CHR 0x00, CHR 0x00, CHR 0x00, CHR 0x00, CHR 0x00,
          CHR 0x00, CHR 0x00, CHR 0x00, CHR 0x00, CHR 0x00, CHR 0x00, CHR 0x00, CHR 0x00]"
    by (simp add: b64_eval)
  have "parseKey (''logs/'' @ CHR ''='' # (''AAAAAAAAAAAAAAAAAAAAAAAAAAAAAAAAAAAAAAAAAAA='' @ [CHR 0x0A]))
       = Inr (''logs/'' @ CHR ''='' # [CHR 0x00, CHR 0x00, CHR 0x00, CHR 0x00, CHR 0x00, CHR 0x00, CHR 0x00, CHR 0x00,
          CHR 0x00, CHR 0x00, CHR 0x00, CHR 0x00, CHR 0x00, CHR 0x00, CHR 0x00, CHR 0x00,
          CHR 0x00, CHR 0x00, CHR 0x00, CHR 0x00, CHR 0x00, CHR 0x00, CHR 0x00, CHR 0x00,
          CHR 0x00, CHR 0x00, CHR 0x00, CHR 0x00, CHR 0x00, CHR 0x00, CHR 0x00, CHR 0x00])"
    by (subst parseKey_sep) (simp_all add: dec45 [simplified])
  then show ?thesis by simp
qed

section \<open>Properties of the bulk remove pipeline\<close>

subsection \<open>Projections of the trace\<close>

lemma sentOf_append: "sentOf (a @ b) = sentOf a @ sentOf b"
  by (induction a rule: sentOf.induct) simp_all

lemma printedOf_append: "printedOf (a @ b) = printedOf a @ printedOf b"
  by (induction a rule: printedOf.induct) simp_all

lemma loggedOf_append: "loggedOf (a @ b) = loggedOf a @ loggedOf b"
  by (induction a rule: loggedOf.induct) simp_all

lemma receivedOf_append: "receivedOf (a @ b) = receivedOf a @ receivedOf b"
  by (induction a rule: receivedOf.induct) simp_all

lemma closes_append: "closes (a @ b) = closes a + closes b"
  by (simp add: closes_def)

lemma afterFatal_append:
  "afterFatal (a @ b) = (case afterFatal a of Some p \<Rightarrow> Some (p @ b) | None \<Rightarrow> afterFatal b)"
  by (induction a rule: afterFatal.induct) simp_all

lemmas proj_append = sentOf_append printedOf_append loggedOf_append receivedOf_append
  closes_append afterFatal_append

lemma trace_emit: "trace (emit ev st) = trace st @ [ev]"
  by (simp add: emit_def)

lemma errorCh_emit: "errorCh (emit ev st) = errorCh st"
  by (simp add: emit_def)

lemma emit_errorCh_update: "emit ev (st\<lparr>errorCh := q\<rparr>) = (emit ev st)\<lparr>errorCh := q\<rparr>"
  by (simp add: emit_def)

lemma closes_Nil: "closes [] = 0"
  by (simp add: closes_def)

lemma closes_Cons: "closes (ev # evs) = (if ev = Closed then 1 else 0) + closes evs"
  by (simp add: closes_def)

lemmas emit_simps = trace_emit errorCh_emit emit_errorCh_update proj_append closes_Nil closes_Cons

lemma sendContent_sent:
  "sendContent u c n errs st = (b, st') \<Longrightarrow>
   sentOf (trace st') = sentOf (trace st) @ (if b then [c] else [])
   \<and> printedOf (trace st') = printedOf (trace st)"
  by (induction u c n errs st rule: sendContent.induct)
     (auto simp: emit_simps Let_def split: if_splits)

lemma sendContent_received:
  "sendContent u c n errs st = (b, st') \<Longrightarrow>
   receivedOf (trace st') @ errorCh st' = receivedOf (trace st) @ errs"
  by (induction u c n errs st rule: sendContent.induct)
     (auto simp: emit_simps Let_def split: if_splits)

lemma sendContent_closes:
  "sendContent u c n errs st = (b, st') \<Longrightarrow>
   closes (trace st') = closes (trace st) + (if b then 0 else 1)"
  by (induction u c n errs st rule: sendContent.induct)
     (auto simp: emit_simps Let_def split: if_splits)

lemma sendContent_fatal:
  "sendContent u c n errs st = (b, st') \<Longrightarrow> afterFatal (trace st) = None \<Longrightarrow>
   afterFatal (trace st') = (if b then None else Some [Closed])"
  by (induction u c n errs st rule: sendContent.induct)
     (auto simp: emit_simps Let_def split: if_splits)

lemma sendContent_perm:
  "sendContent u c n errs st = (b, st') \<Longrightarrow> \<forall>e \<in> set errs. isInsufficientPermission e \<Longrightarrow>
   b \<and> (\<forall>e \<in> set (errorCh st'). isInsufficientPermission e)"
  by (induction u c n errs st rule: sendContent.induct)
     (auto simp: emit_simps Let_def split: if_splits)

lemma sendContent_logged:
  "sendContent u c n errs st = (b, st') \<Longrightarrow>
   loggedOf (trace st') @ errorCh st' = loggedOf (trace st) @ errs"
  by (induction u c n errs st rule: sendContent.induct)
     (auto simp: emit_simps Let_def split: if_splits)


lemma drainLoop_sent:
  "drainLoop url errs st = (r, st') \<Longrightarrow>
   sentOf (trace st') = sentOf (trace st) \<and> printedOf (trace st') = printedOf (trace st)
   \<and> closes (trace st') = closes (trace st)"
  by (induction url errs st rule: drainLoop.induct)
     (auto simp: emit_simps Let_def split: if_splits)

lemma drainLoop_received:
  "drainLoop url errs st = (r, st') \<Longrightarrow>
   receivedOf (trace st') @ errorCh st' = receivedOf (trace st) @ errs"
  by (induction url errs st rule: drainLoop.induct)
     (auto simp: emit_simps Let_def split: if_splits)

lemma drainLoop_fatal:
  "drainLoop url errs st = (r, st') \<Longrightarrow> afterFatal (trace st) = None \<Longrightarrow>
   (r = ReturnNil \<longrightarrow> afterFatal (trace st') = None \<and> errorCh st' = [])
   \<and> (r = ExitStatusError \<longrightarrow> afterFatal (trace st') = Some [])"
  by (induction url errs st rule: drainLoop.induct)
     (auto simp: emit_simps Let_def split: if_splits)

lemma drainLoop_perm:
  "drainLoop url errs st = (r, st') \<Longrightarrow> \<forall>e \<in> set errs. isInsufficientPermission e \<Longrightarrow>
   r = ReturnNil \<and> loggedOf (trace st') = loggedOf (trace st) @ errs"
  by (induction url errs st rule: drainLoop.induct)
     (auto simp: emit_simps Let_def split: if_splits)


lemma upToFatal_perm: "list_all isInsufficientPermission xs \<Longrightarrow> upToFatal xs = xs"
  by (induction xs) simp_all

lemma upToFatal_append:
  "list_all isInsufficientPermission xs \<Longrightarrow> upToFatal (xs @ ys) = xs @ upToFatal ys"
  by (induction xs) simp_all

lemma upToFatal_take_drop:
  "list_all isInsufficientPermission (take n es) \<Longrightarrow>
   take n es @ upToFatal (drop n es) = upToFatal es"
  using upToFatal_append [of "take n es" "drop n es"] by simp

lemma upToFatal_take:
  "\<not> list_all isInsufficientPermission (take n es) \<Longrightarrow> upToFatal (take n es) = upToFatal es"
proof (induction es arbitrary: n)
  case Nil
  then show ?case by simp
next
  case (Cons e es)
  then show ?case by (cases n) auto
qed

lemma sendContent_exact:
  "sendContent u c n errs st = (b, st') \<Longrightarrow>
   b = list_all isInsufficientPermission (take n errs)
   \<and> receivedOf (trace st') = receivedOf (trace st) @ upToFatal (take n errs)
   \<and> errorCh st' = drop (length (upToFatal (take n errs))) errs"
  by (induction u c n errs st rule: sendContent.induct)
     (auto simp: emit_simps Let_def split: if_splits)

lemma drainLoop_upToFatal:
  "drainLoop url errs st = (r, st') \<Longrightarrow>
   receivedOf (trace st') = receivedOf (trace st) @ upToFatal errs"
  by (induction url errs st rule: drainLoop.induct)
     (auto simp: emit_simps Let_def split: if_splits)

lemma drainLoop_extends:
  "drainLoop url errs st = (r, st') \<Longrightarrow> \<exists>evs. trace st' = trace st @ evs"
  by (induction url errs st rule: drainLoop.induct)
     (auto simp: emit_simps Let_def split: if_splits)

lemma beforeClose_append:
  "closes pre = 0 \<Longrightarrow> beforeClose (pre @ Closed # evs) = pre"
  by (induction pre) (auto simp: beforeClose_def closes_def split: if_splits)


lemma listLoop_skip:
  "Err c = None \<Longrightarrow> \<not> candidate older newer ot nt c \<Longrightarrow>
   listLoop older newer url alias isFake ot nt (c # cs) arr st
     = listLoop older newer url alias isFake ot nt cs arr st"
  by (auto simp: candidate_def IsZero_def Let_def)

lemma listLoop_error:
  "Err c = Some e \<Longrightarrow>
   listLoop older newer url alias isFake ot nt (c # cs) arr st
     = (if isInsufficientPermission e
        then listLoop older newer url alias isFake ot nt cs arr
               (emit (Logged e (''Failed to remove `'' @ url @ ''` recursively.'')) st)
        else (False,
              emit Closed (emit (Logged e (''Failed to remove `'' @ url @ ''` recursively.'')) st)))"
  by (simp add: Let_def)

lemma listLoop_candidate:
  "Err c = None \<Longrightarrow> candidate older newer ot nt c \<Longrightarrow>
   listLoop older newer url alias isFake ot nt (c # cs) arr st
     = (if isFake
        then listLoop older newer url alias isFake ot nt cs arr
               (emit (Printed (rmMsg alias c)) st)
        else (case sendContent (URL c) c (case arr of [] \<Rightarrow> 0 | n # ns \<Rightarrow> n) (errorCh st)
                     (emit (Printed (rmMsg alias c)) st) of
                (True, st2) \<Rightarrow> listLoop older newer url alias isFake ot nt cs (tl arr) st2
              | (False, st2) \<Rightarrow> (False, st2)))"
  by (auto simp: candidate_def IsZero_def Let_def rmMsg_def errorCh_emit)

lemma listLoop_Cons_cases [consumes 1, case_names perm fatal skip fake sent abort]:
  assumes "listLoop older newer url alias isFake ot nt (c # cs) arr st = (b, st')"
  obtains
    e where "Err c = Some e" "isInsufficientPermission e"
      "listLoop older newer url alias isFake ot nt cs arr
         (emit (Logged e (''Failed to remove `'' @ url @ ''` recursively.'')) st) = (b, st')"
  | e where "Err c = Some e" "\<not> isInsufficientPermission e" "\<not> b"
      "st' = emit Closed (emit (Logged e (''Failed to remove `'' @ url @ ''` recursively.'')) st)"
  | "Err c = None" "\<not> candidate older newer ot nt c"
      "listLoop older newer url alias isFake ot nt cs arr st = (b, st')"
  | "Err c = None" "candidate older newer ot nt c" "isFake"
      "listLoop older newer url alias isFake ot nt cs arr (emit (Printed (rmMsg alias c)) st)
         = (b, st')"
  | st2 where "Err c = None" "candidate older newer ot nt c" "\<not> isFake"
      "sendContent (URL c) c (case arr of [] \<Rightarrow> 0 | n # ns \<Rightarrow> n) (errorCh st)
         (emit (Printed (rmMsg alias c)) st) = (True, st2)"
      "listLoop older newer url alias isFake ot nt cs (tl arr) st2 = (b, st')"
  | "Err c = None" "candidate older newer ot nt c" "\<not> isFake" "\<not> b"
      "sendContent (URL c) c (case arr of [] \<Rightarrow> 0 | n # ns \<Rightarrow> n) (errorCh st)
         (emit (Printed (rmMsg alias c)) st) = (False, st')"
proof (cases "Err c")
  case None
  show ?thesis
  proof (cases "candidate older newer ot nt c")
    case False
    with None assms that(3) show ?thesis
      by (simp add: listLoop_skip del: listLoop.simps)
  next
    case True
    show ?thesis
    proof (cases isFake)
      case fk: True
      with None True assms that(4) show ?thesis
        by (simp add: listLoop_candidate del: listLoop.simps)
    next
      case nf: False
      obtain b2 st2 where sc: "sendContent (URL c) c (case arr of [] \<Rightarrow> 0 | n # ns \<Rightarrow> n)
          (errorCh st) (emit (Printed (rmMsg alias c)) st) = (b2, st2)"
        by (cases "sendContent (URL c) c (case arr of [] \<Rightarrow> 0 | n # ns \<Rightarrow> n)
          (errorCh st) (emit (Printed (rmMsg alias c)) st)") auto
      show ?thesis
      proof (cases b2)
        case b2t: True
        with None True nf sc assms have
          "listLoop older newer url alias isFake ot nt cs (tl arr) st2 = (b, st')"
          by (simp add: listLoop_candidate del: listLoop.simps)
        with None True nf sc b2t that(5) show ?thesis by simp
      next
        case b2f: False
        with None True nf sc assms have "\<not> b \<and> st' = st2"
          by (auto simp add: listLoop_candidate simp del: listLoop.simps)
        with None True nf sc b2f that(6) show ?thesis by simp
      qed
    qed
  qed
next
  case (Some e)
  show ?thesis
  proof (cases "isInsufficientPermission e")
    case True
    with Some assms that(1) show ?thesis
      by (simp add: listLoop_error del: listLoop.simps)
  next
    case False
    with Some assms that(2) show ?thesis
      by (auto simp add: listLoop_error simp del: listLoop.simps)
  qed
qed

lemma listLoop_closes:
  "listLoop older newer url alias isFake ot nt cs arr st = (b, st') \<Longrightarrow>
   closes (trace st') = closes (trace st) + (if b then 0 else 1)"
proof (induction cs arbitrary: arr st)
  case Nil
  then show ?case by auto
next
  case (Cons c cs)
  from Cons.prems(1) show ?case
  proof (cases rule: listLoop_Cons_cases)
    case (perm e)
    with Cons.IH [OF perm(3)] show ?thesis by (simp add: emit_simps)
  next
    case (fatal e)
    then show ?thesis by (simp add: emit_simps)
  next
    case skip
    with Cons.IH [OF skip(3)] show ?thesis by simp
  next
    case fake
    with Cons.IH [OF fake(4)] show ?thesis by (simp add: emit_simps)
  next
    case (sent st2)
    from sendContent_closes [OF sent(4)] Cons.IH [OF sent(5)]
    show ?thesis by (simp add: emit_simps)
  next
    case abort
    from sendContent_closes [OF abort(5)] abort(4)
    show ?thesis by (simp add: emit_simps)
  qed
qed

lemma listLoop_fatal:
  "listLoop older newer url alias isFake ot nt cs arr st = (b, st') \<Longrightarrow>
   afterFatal (trace st) = None \<Longrightarrow>
   afterFatal (trace st') = (if b then None else Some [Closed])"
proof (induction cs arbitrary: arr st)
  case Nil
  then show ?case by auto
next
  case (Cons c cs)
  from Cons.prems(1) show ?case
  proof (cases rule: listLoop_Cons_cases)
    case (perm e)
    with Cons.prems(2) Cons.IH [OF perm(3)] show ?thesis by (simp add: emit_simps)
  next
    case (fatal e)
    with Cons.prems(2) show ?thesis by (simp add: emit_simps)
  next
    case skip
    with Cons.prems(2) Cons.IH [OF skip(3)] show ?thesis by simp
  next
    case fake
    with Cons.prems(2) Cons.IH [OF fake(4)] show ?thesis by (simp add: emit_simps)
  next
    case (sent st2)
    from sendContent_fatal [OF sent(4)] Cons.prems(2)
    have "afterFatal (trace st2) = None" by (simp add: emit_simps)
    with Cons.IH [OF sent(5)] show ?thesis by simp
  next
    case abort
    from sendContent_fatal [OF abort(5)] Cons.prems(2) abort(4)
    show ?thesis by (simp add: emit_simps)
  qed
qed

lemma listLoop_received:
  "listLoop older newer url alias isFake ot nt cs arr st = (b, st') \<Longrightarrow>
   receivedOf (trace st') @ errorCh st' = receivedOf (trace st) @ errorCh st"
proof (induction cs arbitrary: arr st)
  case Nil
  then show ?case by auto
next
  case (Cons c cs)
  from Cons.prems(1) show ?case
  proof (cases rule: listLoop_Cons_cases)
    case (perm e)
    with Cons.IH [OF perm(3)] show ?thesis by (simp add: emit_simps)
  next
    case (fatal e)
    then show ?thesis by (simp add: emit_simps)
  next
    case skip
    with Cons.IH [OF skip(3)] show ?thesis by simp
  next
    case fake
    with Cons.IH [OF fake(4)] show ?thesis by (simp add: emit_simps)
  next
    case (sent st2)
    from sendContent_received [OF sent(4)] Cons.IH [OF sent(5)]
    show ?thesis by (simp add: emit_simps)
  next
    case abort
    from sendContent_received [OF abort(5)]
    show ?thesis by (simp add: emit_simps)
  qed
qed


lemma benign_None: "Err c = None \<Longrightarrow> benign c"
  by (simp add: benign_def)

lemma benign_Some: "Err c = Some e \<Longrightarrow> benign c = isInsufficientPermission e"
  by (simp add: benign_def)

lemma candidate_no_error: "Err c = Some e \<Longrightarrow> \<not> candidate older newer ot nt c"
  by (simp add: candidate_def)

lemma listLoop_fake:
  "listLoop older newer url alias isFake ot nt cs arr st = (b, st') \<Longrightarrow> isFake \<Longrightarrow>
   b = list_all benign cs
   \<and> sentOf (trace st') = sentOf (trace st)
   \<and> printedOf (trace st')
       = printedOf (trace st)
         @ map (rmMsg alias) (filter (candidate older newer ot nt) (takeWhile benign cs))
   \<and> errorCh st' = errorCh st"
proof (induction cs arbitrary: arr st)
  case Nil
  then show ?case by auto
next
  case (Cons c cs)
  from Cons.prems(1) show ?case
  proof (cases rule: listLoop_Cons_cases)
    case (perm e)
    with Cons.IH [OF perm(3) Cons.prems(2)] show ?thesis
      by (simp add: emit_simps benign_Some candidate_no_error)
  next
    case (fatal e)
    then show ?thesis by (simp add: emit_simps benign_Some)
  next
    case skip
    with Cons.IH [OF skip(3) Cons.prems(2)] show ?thesis by (simp add: benign_None)
  next
    case fake
    with Cons.IH [OF fake(4) Cons.prems(2)] show ?thesis
      by (simp add: emit_simps benign_None)
  next
    case (sent st2)
    with Cons.prems(2) show ?thesis by simp
  next
    case abort
    with Cons.prems(2) show ?thesis by simp
  qed
qed

lemma listLoop_real_perm:
  "listLoop older newer url alias isFake ot nt cs arr st = (b, st') \<Longrightarrow> \<not> isFake \<Longrightarrow>
   \<forall>e \<in> set (errorCh st). isInsufficientPermission e \<Longrightarrow>
   b = list_all benign cs
   \<and> sentOf (trace st')
       = sentOf (trace st) @ filter (candidate older newer ot nt) (takeWhile benign cs)
   \<and> printedOf (trace st')
       = printedOf (trace st)
         @ map (rmMsg alias) (filter (candidate older newer ot nt) (takeWhile benign cs))
   \<and> (\<forall>e \<in> set (errorCh st'). isInsufficientPermission e)"
proof (induction cs arbitrary: arr st)
  case Nil
  then show ?case by auto
next
  case (Cons c cs)
  note pm = Cons.prems(3)
  from Cons.prems(1) show ?case
  proof (cases rule: listLoop_Cons_cases)
    case (perm e)
    with Cons.IH [OF perm(3) Cons.prems(2)] pm show ?thesis
      by (simp add: emit_simps benign_Some candidate_no_error)
  next
    case (fatal e)
    with pm show ?thesis by (simp add: emit_simps benign_Some)
  next
    case skip
    with Cons.IH [OF skip(3) Cons.prems(2)] pm show ?thesis by (simp add: benign_None)
  next
    case fake
    with Cons.prems(2) show ?thesis by simp
  next
    case (sent st2)
    from sendContent_perm [OF sent(4)] pm
    have p2: "\<forall>e \<in> set (errorCh st2). isInsufficientPermission e" by simp
    from sendContent_sent [OF sent(4)] Cons.IH [OF sent(5) Cons.prems(2) p2] sent(1,2)
    show ?thesis by (simp add: emit_simps benign_None)
  next
    case abort
    from sendContent_perm [OF abort(5)] pm show ?thesis by simp
  qed
qed

lemma listLoop_prefix:
  "listLoop older newer url alias isFake ot nt cs arr st = (b, st') \<Longrightarrow>
   \<exists>rest. sentOf (trace st) @ filter (candidate older newer ot nt) (takeWhile benign cs)
           = sentOf (trace st') @ rest"
proof (induction cs arbitrary: arr st)
  case Nil
  then show ?case by auto
next
  case (Cons c cs)
  from Cons.prems(1) show ?case
  proof (cases rule: listLoop_Cons_cases)
    case (perm e)
    with Cons.IH [OF perm(3)] show ?thesis
      by (simp add: emit_simps benign_Some candidate_no_error)
  next
    case (fatal e)
    then show ?thesis by (simp add: emit_simps benign_Some)
  next
    case skip
    with Cons.IH [OF skip(3)] show ?thesis by (simp add: benign_None)
  next
    case fake
    from Cons.IH [OF fake(4)] obtain rest where
      "sentOf (trace st) @ filter (candidate older newer ot nt) (takeWhile benign cs)
         = sentOf (trace st') @ rest"
      by (auto simp: emit_simps)
    with listLoop_fake [OF fake(4) fake(3)] fake(1,2) show ?thesis
      by (simp add: emit_simps benign_None)
  next
    case (sent st2)
    from sendContent_sent [OF sent(4)] Cons.IH [OF sent(5)] sent(1,2)
    show ?thesis by (simp add: emit_simps benign_None)
  next
    case abort
    from sendContent_sent [OF abort(5)] abort(1,2)
    show ?thesis by (simp add: emit_simps benign_None)
  qed
qed

lemma listLoop_logged:
  "listLoop older newer url alias isFake ot nt cs arr st = (True, st') \<Longrightarrow>
   set (loggedOf (trace st')) \<union> set (errorCh st')
     = set (loggedOf (trace st)) \<union> set (errorCh st) \<union> {e. \<exists>c \<in> set cs. Err c = Some e}"
proof (induction cs arbitrary: arr st)
  case Nil
  then show ?case by auto
next
  case (Cons c cs)
  from Cons.prems(1) show ?case
  proof (cases rule: listLoop_Cons_cases)
    case (perm e)
    with Cons.IH [OF perm(3)] show ?thesis
      by (auto simp add: emit_simps)
  next
    case (fatal e)
    then show ?thesis by simp
  next
    case skip
    with Cons.IH [OF skip(3)] show ?thesis by auto
  next
    case fake
    with Cons.IH [OF fake(4)] show ?thesis by (auto simp add: emit_simps)
  next
    case (sent st2)
    from sendContent_logged [OF sent(4)]
    have "set (loggedOf (trace st2) @ errorCh st2)
            = set (loggedOf (trace (emit (Printed (rmMsg alias c)) st)) @ errorCh st)"
      by simp
    then have "set (loggedOf (trace st2)) \<union> set (errorCh st2)
            = set (loggedOf (trace st)) \<union> set (errorCh st)"
      by (simp add: emit_simps)
    with Cons.IH [OF sent(5)] sent(1) show ?thesis by auto
  next
    case abort
    then show ?thesis by simp
  qed
qed


lemma listLoop_sendable:
  "listLoop older newer url alias isFake ot nt cs arr st = (b, st') \<Longrightarrow> \<not> isFake \<Longrightarrow>
   sentOf (trace st')
     = sentOf (trace st)
       @ sendable arr (errorCh st) (filter (candidate older newer ot nt) (takeWhile benign cs))
   \<and> receivedOf (trace st')
     = receivedOf (trace st)
       @ selected arr (errorCh st) (filter (candidate older newer ot nt) (takeWhile benign cs))"
proof (induction cs arbitrary: arr st)
  case Nil
  then show ?case by auto
next
  case (Cons c cs)
  from Cons.prems(1) show ?case
  proof (cases rule: listLoop_Cons_cases)
    case (perm e)
    with Cons.IH [OF perm(3) Cons.prems(2)] show ?thesis
      by (simp add: emit_simps benign_Some candidate_no_error)
  next
    case (fatal e)
    then show ?thesis by (simp add: emit_simps benign_Some)
  next
    case skip
    with Cons.IH [OF skip(3) Cons.prems(2)] show ?thesis by (simp add: benign_None)
  next
    case fake
    with Cons.prems(2) show ?thesis by simp
  next
    case (sent st2)
    from sendContent_exact [OF sent(4)]
    have ok: "list_all isInsufficientPermission
                (take (case arr of [] \<Rightarrow> 0 | n # ns \<Rightarrow> n) (errorCh st))"
      and rc: "receivedOf (trace st2)
                 = receivedOf (trace st) @ take (case arr of [] \<Rightarrow> 0 | n # ns \<Rightarrow> n) (errorCh st)"
      and ch: "errorCh st2
                 = drop (length (take (case arr of [] \<Rightarrow> 0 | n # ns \<Rightarrow> n) (errorCh st)))
                     (errorCh st)"
      by (simp_all add: emit_simps upToFatal_perm)
    from sendContent_sent [OF sent(4)]
    have sn: "sentOf (trace st2) = sentOf (trace st) @ [c]"
      by (simp add: emit_simps)
    from Cons.IH [OF sent(5) Cons.prems(2)] ok rc ch sn sent(1,2) show ?thesis
      by (simp add: benign_None Let_def)
  next
    case abort
    from sendContent_exact [OF abort(5)]
    have ok: "\<not> list_all isInsufficientPermission
                (take (case arr of [] \<Rightarrow> 0 | n # ns \<Rightarrow> n) (errorCh st))"
      and rc: "receivedOf (trace st')
                 = receivedOf (trace st)
                   @ upToFatal (take (case arr of [] \<Rightarrow> 0 | n # ns \<Rightarrow> n) (errorCh st))"
      by (simp_all add: emit_simps)
    from sendContent_sent [OF abort(5)]
    have sn: "sentOf (trace st') = sentOf (trace st)"
      by (simp add: emit_simps)
    from ok rc sn abort(1,2) show ?thesis
      by (simp add: benign_None Let_def)
  qed
qed

lemma listLoop_abort_benign:
  "listLoop older newer url alias isFake ot nt cs arr st = (False, st') \<Longrightarrow>
   list_all benign cs \<Longrightarrow>
   receivedOf (trace st') = receivedOf (trace st) @ upToFatal (errorCh st)"
proof (induction cs arbitrary: arr st)
  case Nil
  then show ?case by auto
next
  case (Cons c cs)
  from Cons.prems(2) have bc: "benign c" and bs: "list_all benign cs"
    by simp_all
  from Cons.prems(1) show ?case
  proof (cases rule: listLoop_Cons_cases)
    case (perm e)
    with Cons.IH [OF perm(3) bs] show ?thesis by (simp add: emit_simps)
  next
    case (fatal e)
    with bc show ?thesis by (simp add: benign_Some)
  next
    case skip
    with Cons.IH [OF skip(3) bs] show ?thesis by simp
  next
    case fake
    with Cons.IH [OF fake(4) bs] show ?thesis by (simp add: emit_simps)
  next
    case (sent st2)
    from sendContent_exact [OF sent(4)]
    have ok: "list_all isInsufficientPermission
                (take (case arr of [] \<Rightarrow> 0 | n # ns \<Rightarrow> n) (errorCh st))"
      and rc: "receivedOf (trace st2)
                 = receivedOf (trace st) @ take (case arr of [] \<Rightarrow> 0 | n # ns \<Rightarrow> n) (errorCh st)"
      and ch: "errorCh st2 = drop (case arr of [] \<Rightarrow> 0 | n # ns \<Rightarrow> n) (errorCh st)"
      by (simp_all add: emit_simps upToFatal_perm min_def)
    from Cons.IH [OF sent(5) bs] rc ch upToFatal_take_drop [OF ok] show ?thesis
      by simp
  next
    case abort
    from sendContent_exact [OF abort(5)] show ?thesis
      by (simp add: emit_simps upToFatal_take)
  qed
qed


lemma removeRecursive_cases [consumes 2, case_names aborted fed]:
  assumes "removeRecursive older newer env url inc isFake byp ot nt = (r, st)"
    and "newClientFromAlias env = None"
  obtains
    "listLoop older newer url (targetAlias env) isFake ot nt (clntList env) (arrivals env)
       \<lparr>trace = [], errorCh = clntRemove env\<rparr> = (False, st)" "r = ExitStatusError"
  | st1 where
    "listLoop older newer url (targetAlias env) isFake ot nt (clntList env) (arrivals env)
       \<lparr>trace = [], errorCh = clntRemove env\<rparr> = (True, st1)"
    "drainLoop url (errorCh st1) (emit Closed st1) = (r, st)"
proof -
  obtain b st1 where ll:
    "listLoop older newer url (targetAlias env) isFake ot nt (clntList env) (arrivals env)
       \<lparr>trace = [], errorCh = clntRemove env\<rparr> = (b, st1)"
    by (cases "listLoop older newer url (targetAlias env) isFake ot nt (clntList env)
       (arrivals env) \<lparr>trace = [], errorCh = clntRemove env\<rparr>") auto
  show ?thesis
  proof (cases b)
    case True
    with ll assms that(2) show ?thesis by (simp add: removeRecursive_def)
  next
    case False
    with ll assms that(1) show ?thesis by (auto simp add: removeRecursive_def)
  qed
qed

lemma removeRecursive_no_client:
  "newClientFromAlias env = Some e \<Longrightarrow>
   removeRecursive older newer env url inc isFake byp ot nt
     = (ExitStatusError,
        \<lparr>trace = [Logged e (''Failed to remove `'' @ url @ ''` recursively.'')], errorCh = []\<rparr>)"
  by (simp add: removeRecursive_def)

lemma removeRecursive_closes:
  assumes "removeRecursive older newer env url inc isFake byp ot nt = (r, st)"
    and "newClientFromAlias env = None"
  shows "closes (trace st) = 1"
  using assms
proof (cases rule: removeRecursive_cases)
  case aborted
  from listLoop_closes [OF aborted(1)] show ?thesis by (simp add: closes_Nil)
next
  case (fed st1)
  from listLoop_closes [OF fed(1)] drainLoop_sent [OF fed(2)] show ?thesis
    by (simp add: emit_simps)
qed

lemma removeRecursive_fatal:
  assumes "removeRecursive older newer env url inc isFake byp ot nt = (r, st)"
    and "newClientFromAlias env = None"
  shows "(r = ReturnNil \<and> afterFatal (trace st) = None \<and> errorCh st = [])
         \<or> (r = ExitStatusError \<and> afterFatal (trace st) = Some [Closed])
         \<or> (r = ExitStatusError \<and> afterFatal (trace st) = Some [])"
  using assms
proof (cases rule: removeRecursive_cases)
  case aborted
  from listLoop_fatal [OF aborted(1)] aborted(2) show ?thesis by simp
next
  case (fed st1)
  from listLoop_fatal [OF fed(1)] have "afterFatal (trace (emit Closed st1)) = None"
    by (simp add: emit_simps)
  from drainLoop_fatal [OF fed(2) this] show ?thesis by (cases r) simp_all
qed

lemma removeRecursive_received:
  assumes "removeRecursive older newer env url inc isFake byp ot nt = (r, st)"
    and "newClientFromAlias env = None"
  shows "receivedOf (trace st) @ errorCh st = clntRemove env"
  using assms
proof (cases rule: removeRecursive_cases)
  case aborted
  from listLoop_received [OF aborted(1)] show ?thesis by simp
next
  case (fed st1)
  from listLoop_received [OF fed(1)] drainLoop_received [OF fed(2)] show ?thesis
    by (simp add: emit_simps)
qed

lemma removeRecursive_benign:
  assumes "removeRecursive older newer env url inc isFake byp ot nt = (r, st)"
    and "newClientFromAlias env = None"
    and "list_all benign (clntList env)"
    and "\<forall>e \<in> set (clntRemove env). isInsufficientPermission e"
  shows "r = ReturnNil
    \<and> printedOf (trace st)
        = map (rmMsg (targetAlias env)) (filter (candidate older newer ot nt) (clntList env))
    \<and> sentOf (trace st)
        = (if isFake then [] else filter (candidate older newer ot nt) (clntList env))
    \<and> set (loggedOf (trace st))
        = {e. \<exists>c \<in> set (clntList env). Err c = Some e} \<union> set (clntRemove env)"
  using assms(1,2)
proof (cases rule: removeRecursive_cases)
  case aborted
  show ?thesis
  proof (cases isFake)
    case True
    from listLoop_fake [OF aborted(1) True] assms(3) show ?thesis by simp
  next
    case False
    from listLoop_real_perm [OF aborted(1) False] assms(3,4) show ?thesis by simp
  qed
next
  case (fed st1)
  from assms(3) have tw: "takeWhile benign (clntList env) = clntList env"
    by (simp add: list_all_iff takeWhile_eq_all_conv)
  from listLoop_received [OF fed(1)]
  have "set (receivedOf (trace st1) @ errorCh st1) = set (clntRemove env)"
    by simp
  then have "set (errorCh st1) \<subseteq> set (clntRemove env)"
    by auto
  with assms(4) have pm: "\<forall>e \<in> set (errorCh st1). isInsufficientPermission e"
    by auto
  from drainLoop_perm [OF fed(2)] pm
  have dr: "r = ReturnNil" "loggedOf (trace st) = loggedOf (trace st1) @ errorCh st1"
    by (simp_all add: emit_simps)
  from listLoop_logged [OF fed(1)] dr(2)
  have lg: "set (loggedOf (trace st))
        = {e. \<exists>c \<in> set (clntList env). Err c = Some e} \<union> set (clntRemove env)"
    by auto
  have sp: "printedOf (trace st)
        = map (rmMsg (targetAlias env)) (filter (candidate older newer ot nt) (clntList env))
     \<and> sentOf (trace st)
        = (if isFake then [] else filter (candidate older newer ot nt) (clntList env))"
  proof (cases isFake)
    case True
    from listLoop_fake [OF fed(1) True] drainLoop_sent [OF fed(2)] tw True show ?thesis
      by (simp add: emit_simps)
  next
    case False
    from listLoop_real_perm [OF fed(1) False] assms(4) drainLoop_sent [OF fed(2)] tw False
    show ?thesis by (simp add: emit_simps)
  qed
  from dr(1) lg sp show ?thesis by simp
qed

subsection \<open>Failures during a recursive removal\<close>

lemma afterFatal_None: "(afterFatal tr = None) = (\<forall>e \<in> set (loggedOf tr). isInsufficientPermission e)"
  by (induction tr rule: afterFatal.induct) auto

lemma afterFatal_suffix: "afterFatal tr = Some post \<Longrightarrow> \<exists>pre. tr = pre @ post"
proof (induction tr)
  case Nil
  then show ?case by simp
next
  case (Cons ev evs)
  show ?case
  proof (cases "afterFatal evs = Some post")
    case True
    with Cons.IH obtain pre where "evs = pre @ post" by blast
    then have "ev # evs = (ev # pre) @ post" by simp
    then show ?thesis by blast
  next
    case False
    with Cons.prems have "evs = post" by (cases ev) (auto split: if_splits)
    then have "ev # evs = [ev] @ post" by simp
    then show ?thesis by blast
  qed
qed

lemma sendContent_reclog:
  "sendContent u c n errs st = (b, st') \<Longrightarrow>
   set (receivedOf (trace st)) \<subseteq> set (loggedOf (trace st)) \<Longrightarrow>
   set (receivedOf (trace st')) \<subseteq> set (loggedOf (trace st'))"
  by (induction u c n errs st rule: sendContent.induct)
     (auto simp: emit_simps Let_def split: if_splits)

lemma drainLoop_reclog:
  "drainLoop url errs st = (r, st') \<Longrightarrow>
   set (receivedOf (trace st)) \<subseteq> set (loggedOf (trace st)) \<Longrightarrow>
   set (receivedOf (trace st')) \<subseteq> set (loggedOf (trace st'))"
  by (induction url errs st rule: drainLoop.induct)
     (auto simp: emit_simps Let_def split: if_splits)

lemma listLoop_reclog:
  "listLoop older newer url alias isFake ot nt cs arr st = (b, st') \<Longrightarrow>
   set (receivedOf (trace st)) \<subseteq> set (loggedOf (trace st)) \<Longrightarrow>
   set (receivedOf (trace st')) \<subseteq> set (loggedOf (trace st'))"
proof (induction cs arbitrary: arr st)
  case Nil
  then show ?case by auto
next
  case (Cons c cs)
  note sub = Cons.prems(2)
  from Cons.prems(1) show ?case
  proof (cases rule: listLoop_Cons_cases)
    case (perm e)
    from sub have "set (receivedOf (trace (emit (Logged e (''Failed to remove `'' @ url @ ''` recursively.'')) st)))
      \<subseteq> set (loggedOf (trace (emit (Logged e (''Failed to remove `'' @ url @ ''` recursively.'')) st)))"
      by (auto simp: emit_simps)
    from Cons.IH [OF perm(3) this] show ?thesis .
  next
    case (fatal e)
    with sub show ?thesis by (auto simp: emit_simps)
  next
    case skip
    from Cons.IH [OF skip(3) sub] show ?thesis .
  next
    case fake
    from sub have "set (receivedOf (trace (emit (Printed (rmMsg alias c)) st)))
      \<subseteq> set (loggedOf (trace (emit (Printed (rmMsg alias c)) st)))"
      by (auto simp: emit_simps)
    from Cons.IH [OF fake(4) this] show ?thesis .
  next
    case (sent st2)
    from sub have "set (receivedOf (trace (emit (Printed (rmMsg alias c)) st)))
      \<subseteq> set (loggedOf (trace (emit (Printed (rmMsg alias c)) st)))"
      by (auto simp: emit_simps)
    from Cons.IH [OF sent(5) sendContent_reclog [OF sent(4) this]] show ?thesis .
  next
    case abort
    from sub have "set (receivedOf (trace (emit (Printed (rmMsg alias c)) st)))
      \<subseteq> set (loggedOf (trace (emit (Printed (rmMsg alias c)) st)))"
      by (auto simp: emit_simps)
    from sendContent_reclog [OF abort(5) this] show ?thesis .
  qed
qed

lemma listLoop_True_benign:
  "listLoop older newer url alias isFake ot nt cs arr st = (True, st') \<Longrightarrow> list_all benign cs"
proof (induction cs arbitrary: arr st)
  case Nil
  then show ?case by simp
next
  case (Cons c cs)
  from Cons.prems(1) show ?case
  proof (cases rule: listLoop_Cons_cases)
    case (perm e)
    with Cons.IH [OF perm(3)] show ?thesis by (simp add: benign_Some)
  next
    case (fatal e)
    then show ?thesis by simp
  next
    case skip
    with Cons.IH [OF skip(3)] show ?thesis by (simp add: benign_None)
  next
    case fake
    with Cons.IH [OF fake(4)] show ?thesis by (simp add: benign_None)
  next
    case (sent st2)
    with Cons.IH [OF sent(5)] show ?thesis by (simp add: benign_None)
  next
    case abort
    then show ?thesis by simp
  qed
qed

lemma removeRecursive_reclog:
  assumes "removeRecursive older newer env url inc isFake byp ot nt = (r, st)"
    and "newClientFromAlias env = None"
  shows "set (receivedOf (trace st)) \<subseteq> set (loggedOf (trace st))"
  using assms
proof (cases rule: removeRecursive_cases)
  case aborted
  from listLoop_reclog [OF aborted(1)] show ?thesis by simp
next
  case (fed st1)
  from listLoop_reclog [OF fed(1)]
  have "set (receivedOf (trace (emit Closed st1))) \<subseteq> set (loggedOf (trace (emit Closed st1)))"
    by (simp add: emit_simps)
  from drainLoop_reclog [OF fed(2) this] show ?thesis .
qed

lemma removeRecursive_Nil_benign:
  assumes "removeRecursive older newer env url inc isFake byp ot nt = (ReturnNil, st)"
    and "newClientFromAlias env = None"
  shows "list_all benign (clntList env) \<and> (\<forall>e \<in> set (clntRemove env). isInsufficientPermission e)"
proof -
  from assms have b: "list_all benign (clntList env)"
  proof (cases rule: removeRecursive_cases)
    case aborted
    then show ?thesis by simp
  next
    case (fed st1)
    from listLoop_True_benign [OF fed(1)] show ?thesis .
  qed
  from removeRecursive_fatal [OF assms] have "afterFatal (trace st) = None" "errorCh st = []"
    by simp_all
  with removeRecursive_received [OF assms] removeRecursive_reclog [OF assms]
  have "set (clntRemove env) \<subseteq> set (loggedOf (trace st))"
    "\<forall>e \<in> set (loggedOf (trace st)). isInsufficientPermission e"
    by (auto simp: afterFatal_None)
  with b show ?thesis by auto
qed

lemma removeRecursive_sendable:
  assumes "removeRecursive older newer env url inc isFake byp ot nt = (r, st)"
    and "newClientFromAlias env = None"
    and "\<not> isFake"
  shows "sentOf (trace st)
     = sendable (arrivals env) (clntRemove env)
         (filter (candidate older newer ot nt) (takeWhile benign (clntList env)))"
  using assms(1,2)
proof (cases rule: removeRecursive_cases)
  case aborted
  from listLoop_sendable [OF aborted(1) assms(3)] show ?thesis by simp
next
  case (fed st1)
  from listLoop_sendable [OF fed(1) assms(3)] drainLoop_sent [OF fed(2)] show ?thesis
    by (simp add: emit_simps)
qed

lemma removeRecursive_received_exact:
  assumes "removeRecursive older newer env url inc isFake byp ot nt = (r, st)"
    and "newClientFromAlias env = None"
  shows "receivedOf (trace st)
     = (if list_all benign (clntList env) then upToFatal (clntRemove env)
        else if isFake then []
        else selected (arrivals env) (clntRemove env)
               (filter (candidate older newer ot nt) (takeWhile benign (clntList env))))"
  using assms
proof (cases rule: removeRecursive_cases)
  case aborted
  show ?thesis
  proof (cases "list_all benign (clntList env)")
    case True
    from listLoop_abort_benign [OF aborted(1) True] True show ?thesis by simp
  next
    case nb: False
    show ?thesis
    proof (cases isFake)
      case True
      from listLoop_fake [OF aborted(1) True] listLoop_received [OF aborted(1)]
      have "receivedOf (trace st) = []" by simp
      with nb True show ?thesis by simp
    next
      case False
      from listLoop_sendable [OF aborted(1) False] nb False show ?thesis by simp
    qed
  qed
next
  case (fed st1)
  from listLoop_True_benign [OF fed(1)] have b: "list_all benign (clntList env)" .
  from listLoop_fatal [OF fed(1)] have "afterFatal (trace st1) = None"
    by simp
  then have lg: "\<forall>e \<in> set (loggedOf (trace st1)). isInsufficientPermission e"
    by (simp add: afterFatal_None)
  from listLoop_reclog [OF fed(1)] have "set (receivedOf (trace st1)) \<subseteq> set (loggedOf (trace st1))"
    by simp
  with lg have pm: "list_all isInsufficientPermission (receivedOf (trace st1))"
    by (auto simp: list_all_iff)
  from listLoop_received [OF fed(1)] have all: "receivedOf (trace st1) @ errorCh st1 = clntRemove env"
    by simp
  from drainLoop_upToFatal [OF fed(2)]
  have "receivedOf (trace st) = receivedOf (trace st1) @ upToFatal (errorCh st1)"
    by (simp add: emit_simps)
  also from upToFatal_append [OF pm] have "\<dots> = upToFatal (receivedOf (trace st1) @ errorCh st1)"
    by simp
  finally show ?thesis using b all by simp
qed

lemma removeRecursive_before_close:
  assumes "removeRecursive older newer env url inc isFake byp ot nt = (r, st)"
    and "newClientFromAlias env = None"
  shows "receivedOf (beforeClose (trace st))
     = (if isFake then []
        else selected (arrivals env) (clntRemove env)
               (filter (candidate older newer ot nt) (takeWhile benign (clntList env))))"
  using assms
proof (cases rule: removeRecursive_cases)
  case aborted
  from listLoop_fatal [OF aborted(1)] have "afterFatal (trace st) = Some [Closed]"
    by simp
  from afterFatal_suffix [OF this] obtain pre where pre: "trace st = pre @ [Closed]" ..
  from listLoop_closes [OF aborted(1)] pre have "closes pre = 0"
    by (simp add: emit_simps)
  from beforeClose_append [OF this, of "[]"] pre
  have bc: "receivedOf (beforeClose (trace st)) = receivedOf (trace st)"
    by (simp add: proj_append)
  show ?thesis
  proof (cases isFake)
    case True
    from listLoop_fake [OF aborted(1) True] listLoop_received [OF aborted(1)]
    have "receivedOf (trace st) = []" by simp
    with bc True show ?thesis by simp
  next
    case False
    from listLoop_sendable [OF aborted(1) False] bc False show ?thesis by simp
  qed
next
  case (fed st1)
  from listLoop_closes [OF fed(1)] have c0: "closes (trace st1) = 0"
    by (simp add: closes_Nil)
  from drainLoop_extends [OF fed(2)] obtain evs where
    "trace st = trace st1 @ Closed # evs"
    by (auto simp: emit_simps)
  with beforeClose_append [OF c0] have bc: "beforeClose (trace st) = trace st1"
    by simp
  show ?thesis
  proof (cases isFake)
    case True
    from listLoop_fake [OF fed(1) True] listLoop_received [OF fed(1)]
    have "receivedOf (trace st1) = []" by simp
    with bc True show ?thesis by simp
  next
    case False
    from listLoop_sendable [OF fed(1) False] bc False show ?thesis by simp
  qed
qed


text \<open>
  C2. In a recursive removal whose client was made: the call returns the error status
  exactly when the listing holds an entry with a failure that is not of insufficient
  permission or the backend delivers such a failure, which is exactly when such a
  failure was logged; after logging it nothing happens but closing the feed channel
  (already closed when the failure comes while draining), and the channel is closed
  once. Every failure received is logged. In a run that is not fake the contents sent
  are, of the candidates listed before any such failure of the listing, those offered
  while only failures of insufficient permission come in: such a failure is skipped and
  the content still goes through, and the first other failure that comes in while a
  content is offered ends the run with that content and all later ones not sent. When
  all failures are of insufficient permission, the call returns nil, every candidate of
  the whole listing is printed and (unless the run is fake) sent, and every failure is
  logged.
\<close>

theorem removeRecursive_failures:
  assumes "removeRecursive older newer env url inc isFake byp ot nt = (r, st)"
    and "newClientFromAlias env = None"
  shows "(r = ExitStatusError)
           = (\<not> list_all benign (clntList env)
              \<or> (\<exists>e \<in> set (clntRemove env). \<not> isInsufficientPermission e))
     \<and> (r = ExitStatusError) = (\<exists>e \<in> set (loggedOf (trace st)). \<not> isInsufficientPermission e)
     \<and> (\<forall>post. afterFatal (trace st) = Some post \<longrightarrow>
           (post = [Closed] \<or> post = []) \<and> closes (trace st) = 1)
     \<and> set (receivedOf (trace st)) \<subseteq> set (loggedOf (trace st))
     \<and> (\<not> isFake \<longrightarrow>
          sentOf (trace st)
            = sendable (arrivals env) (clntRemove env)
                (filter (candidate older newer ot nt) (takeWhile benign (clntList env))))
     \<and> (list_all benign (clntList env)
          \<and> (\<forall>e \<in> set (clntRemove env). isInsufficientPermission e) \<longrightarrow>
         r = ReturnNil
         \<and> printedOf (trace st)
             = map (rmMsg (targetAlias env))
                 (filter (candidate older newer ot nt) (clntList env))
         \<and> sentOf (trace st)
             = (if isFake then [] else filter (candidate older newer ot nt) (clntList env))
         \<and> set (loggedOf (trace st))
             = {e. \<exists>c \<in> set (clntList env). Err c = Some e} \<union> set (clntRemove env))"
proof -
  have one: "(r = ExitStatusError)
           = (\<not> list_all benign (clntList env)
              \<or> (\<exists>e \<in> set (clntRemove env). \<not> isInsufficientPermission e))"
  proof (cases r)
    case ReturnNil
    with removeRecursive_Nil_benign [of older newer env url inc isFake byp ot nt st] assms
    show ?thesis by auto
  next
    case ExitStatusError
    with removeRecursive_benign [OF assms] show ?thesis by auto
  qed
  have two: "(r = ExitStatusError) = (\<exists>e \<in> set (loggedOf (trace st)). \<not> isInsufficientPermission e)"
    using removeRecursive_fatal [OF assms] afterFatal_None [of "trace st"]
    by (cases r) auto
  have three: "\<forall>post. afterFatal (trace st) = Some post \<longrightarrow>
           (post = [Closed] \<or> post = []) \<and> closes (trace st) = 1"
    using removeRecursive_fatal [OF assms] removeRecursive_closes [OF assms] by auto
  have four: "\<not> isFake \<longrightarrow>
          sentOf (trace st)
            = sendable (arrivals env) (clntRemove env)
                (filter (candidate older newer ot nt) (takeWhile benign (clntList env)))"
    using removeRecursive_sendable [OF assms] by blast
  from one two three four removeRecursive_reclog [OF assms] removeRecursive_benign [OF assms]
  show ?thesis by blast
qed

lemmas scenario_defs = backend_def entryAt_def failedEntry_def plainFile_def day_def

theorem removeRecursive_failures_witness:
  "fst (removeRecursive (\<lambda>t s. False) (\<lambda>t s. False)
         (backend [failedEntry ''/b/p/denied'' (PathInsufficientPermission ''/b/p/denied''),
                   entryAt ''/b/p/a'' 100, entryAt ''/b/p/b'' 200]
                  [PathInsufficientPermission ''/b/p/a''] [0, 1])
         ''s3/b/p/'' False False False [] []) = ReturnNil
   \<and> sentOf (trace (snd (removeRecursive (\<lambda>t s. False) (\<lambda>t s. False)
         (backend [failedEntry ''/b/p/denied'' (PathInsufficientPermission ''/b/p/denied''),
                   entryAt ''/b/p/a'' 100, entryAt ''/b/p/b'' 200]
                  [PathInsufficientPermission ''/b/p/a''] [0, 1])
         ''s3/b/p/'' False False False [] [])))
       = [entryAt ''/b/p/a'' 100, entryAt ''/b/p/b'' 200]
   \<and> fst (removeRecursive (\<lambda>t s. False) (\<lambda>t s. False)
         (backend [entryAt ''/b/p/a'' 100, entryAt ''/b/p/b'' 200, entryAt ''/b/p/c'' 300]
                  [PathInsufficientPermission ''/b/p/a'', OtherError ''disk failure''] [1, 1])
         ''s3/b/p/'' False False False [] []) = ExitStatusError
   \<and> sentOf (trace (snd (removeRecursive (\<lambda>t s. False) (\<lambda>t s. False)
         (backend [entryAt ''/b/p/a'' 100, entryAt ''/b/p/b'' 200, entryAt ''/b/p/c'' 300]
                  [PathInsufficientPermission ''/b/p/a'', OtherError ''disk failure''] [1, 1])
         ''s3/b/p/'' False False False [] [])))
       = [entryAt ''/b/p/a'' 100]"
proof -
  let ?env = "backend [failedEntry ''/b/p/denied'' (PathInsufficientPermission ''/b/p/denied''),
                   entryAt ''/b/p/a'' 100, entryAt ''/b/p/b'' 200]
                  [PathInsufficientPermission ''/b/p/a''] [0, 1]"
  let ?run = "removeRecursive (\<lambda>t s. False) (\<lambda>t s. False) ?env ''s3/b/p/'' False False False [] []"
  let ?env2 = "backend [entryAt ''/b/p/a'' 100, entryAt ''/b/p/b'' 200, entryAt ''/b/p/c'' 300]
                  [PathInsufficientPermission ''/b/p/a'', OtherError ''disk failure''] [1, 1]"
  let ?run2 = "removeRecursive (\<lambda>t s. False) (\<lambda>t s. False) ?env2 ''s3/b/p/'' False False False [] []"
  have run: "?run = (fst ?run, snd ?run)" and run2: "?run2 = (fst ?run2, snd ?run2)"
    by simp_all
  have client: "newClientFromAlias ?env = None" and client2: "newClientFromAlias ?env2 = None"
    by (simp_all add: backend_def)
  have ok: "list_all benign (clntList ?env)
      \<and> (\<forall>e \<in> set (clntRemove ?env). isInsufficientPermission e)"
    by (simp add: scenario_defs benign_def)
  have cand: "filter (candidate (\<lambda>t s. False) (\<lambda>t s. False) [] []) (clntList ?env)
      = [entryAt ''/b/p/a'' 100, entryAt ''/b/p/b'' 200]"
    by (simp add: scenario_defs candidate_def)
  have bad: "\<exists>e \<in> set (clntRemove ?env2). \<not> isInsufficientPermission e"
    by (simp add: backend_def)
  have fed: "sendable (arrivals ?env2) (clntRemove ?env2)
      (filter (candidate (\<lambda>t s. False) (\<lambda>t s. False) [] []) (takeWhile benign (clntList ?env2)))
      = [entryAt ''/b/p/a'' 100]"
    by (simp add: scenario_defs candidate_def benign_def)
  note first = removeRecursive_failures [OF run client]
  from first [THEN conjunct2, THEN conjunct2, THEN conjunct2, THEN conjunct2, THEN conjunct2]
    ok cand
  have a: "fst ?run = ReturnNil
      \<and> sentOf (trace (snd ?run)) = [entryAt ''/b/p/a'' 100, entryAt ''/b/p/b'' 200]"
    by simp
  note second = removeRecursive_failures [OF run2 client2]
  from second [THEN conjunct1] bad have b1: "fst ?run2 = ExitStatusError"
    by simp
  from second [THEN conjunct2, THEN conjunct2, THEN conjunct2, THEN conjunct2, THEN conjunct1] fed
  have b2: "sentOf (trace (snd ?run2)) = [entryAt ''/b/p/a'' 100]"
    by simp
  from b1 b2 have b: "fst ?run2 = ExitStatusError
      \<and> sentOf (trace (snd ?run2)) = [entryAt ''/b/p/a'' 100]"
    by simp
  from a b show ?thesis by blast
qed


text \<open>
  C3 (as the code has it). Once the client is made, every path of \<open>removeRecursive\<close>
  closes the feed channel exactly once. The failures received and those left on the
  error channel make up what the backend delivers. Before the close the failures
  received are those that come in while the candidates are offered (none in a fake run),
  up to and including the first that is not of insufficient permission. When the
  listing holds no failure other than insufficient permission, the failures received in
  all, before and after the close, are those up to and including the first that is not
  of insufficient permission, or all of them when there is none: on that failure the
  call returns at once and the rest stays on the channel. When the listing holds
  another failure, nothing is received after the close. The call returns nil only when
  no failure is left, and failures are left only when a failure that is not of
  insufficient permission made the call return.
\<close>

theorem removeRecursive_close_and_drain:
  assumes "removeRecursive older newer env url inc isFake byp ot nt = (r, st)"
    and "newClientFromAlias env = None"
  shows "closes (trace st) = 1
     \<and> receivedOf (trace st) @ errorCh st = clntRemove env
     \<and> receivedOf (beforeClose (trace st))
         = (if isFake then []
            else selected (arrivals env) (clntRemove env)
                   (filter (candidate older newer ot nt) (takeWhile benign (clntList env))))
     \<and> receivedOf (trace st)
         = (if list_all benign (clntList env) then upToFatal (clntRemove env)
            else receivedOf (beforeClose (trace st)))
     \<and> (r = ReturnNil \<longrightarrow> errorCh st = [])
     \<and> (errorCh st \<noteq> [] \<longrightarrow>
          r = ExitStatusError
          \<and> (\<exists>e \<in> set (loggedOf (trace st)). \<not> isInsufficientPermission e))"
proof -
  from removeRecursive_fatal [OF assms]
  have nil: "r = ReturnNil \<longrightarrow> errorCh st = []"
    by auto
  from removeRecursive_fatal [OF assms] afterFatal_None [of "trace st"]
  have left: "errorCh st \<noteq> [] \<longrightarrow>
          r = ExitStatusError
          \<and> (\<exists>e \<in> set (loggedOf (trace st)). \<not> isInsufficientPermission e)"
    by auto
  from removeRecursive_received_exact [OF assms] removeRecursive_before_close [OF assms]
  have total: "receivedOf (trace st)
         = (if list_all benign (clntList env) then upToFatal (clntRemove env)
            else receivedOf (beforeClose (trace st)))"
    by simp
  from nil left total removeRecursive_closes [OF assms] removeRecursive_received [OF assms]
    removeRecursive_before_close [OF assms]
  show ?thesis by blast
qed

theorem removeRecursive_close_and_drain_witness:
  "closes (trace (snd (removeRecursive (\<lambda>t s. False) (\<lambda>t s. False)
      (backend [entryAt ''/b/p/a'' 100, entryAt ''/b/p/b'' 200]
               [PathInsufficientPermission ''/b/p/a'', OtherError ''disk failure'',
                PathInsufficientPermission ''/b/p/b''] [1, 1])
      ''s3/b/p/'' False False False [] []))) = 1
   \<and> receivedOf (trace (snd (removeRecursive (\<lambda>t s. False) (\<lambda>t s. False)
      (backend [entryAt ''/b/p/a'' 100, entryAt ''/b/p/b'' 200]
               [PathInsufficientPermission ''/b/p/a'', OtherError ''disk failure'',
                PathInsufficientPermission ''/b/p/b''] [1, 1])
      ''s3/b/p/'' False False False [] [])))
       = [PathInsufficientPermission ''/b/p/a'', OtherError ''disk failure'']
   \<and> errorCh (snd (removeRecursive (\<lambda>t s. False) (\<lambda>t s. False)
      (backend [entryAt ''/b/p/a'' 100, entryAt ''/b/p/b'' 200]
               [PathInsufficientPermission ''/b/p/a'', OtherError ''disk failure'',
                PathInsufficientPermission ''/b/p/b''] [1, 1])
      ''s3/b/p/'' False False False [] [])) = [PathInsufficientPermission ''/b/p/b'']
   \<and> receivedOf (beforeClose (trace (snd (removeRecursive (\<lambda>t s. False) (\<lambda>t s. False)
      (backend [entryAt ''/b/p/a'' 100, failedEntry ''/b/p/x'' (OtherError ''listing failed'')]
               [PathInsufficientPermission ''/b/p/a'', PathInsufficientPermission ''/b/p/b'']
               [1])
      ''s3/b/p/'' False False False [] []))))
       = [PathInsufficientPermission ''/b/p/a'']
   \<and> errorCh (snd (removeRecursive (\<lambda>t s. False) (\<lambda>t s. False)
      (backend [entryAt ''/b/p/a'' 100, failedEntry ''/b/p/x'' (OtherError ''listing failed'')]
               [PathInsufficientPermission ''/b/p/a'', PathInsufficientPermission ''/b/p/b'']
               [1])
      ''s3/b/p/'' False False False [] [])) = [PathInsufficientPermission ''/b/p/b'']"
proof -
  let ?env = "backend [entryAt ''/b/p/a'' 100, entryAt ''/b/p/b'' 200]
               [PathInsufficientPermission ''/b/p/a'', OtherError ''disk failure'',
                PathInsufficientPermission ''/b/p/b''] [1, 1]"
  let ?run = "removeRecursive (\<lambda>t s. False) (\<lambda>t s. False) ?env ''s3/b/p/'' False False False [] []"
  let ?env2 = "backend [entryAt ''/b/p/a'' 100,
                        failedEntry ''/b/p/x'' (OtherError ''listing failed'')]
               [PathInsufficientPermission ''/b/p/a'', PathInsufficientPermission ''/b/p/b'']
               [1]"
  let ?run2 = "removeRecursive (\<lambda>t s. False) (\<lambda>t s. False) ?env2 ''s3/b/p/'' False False False [] []"
  have run: "?run = (fst ?run, snd ?run)" and run2: "?run2 = (fst ?run2, snd ?run2)"
    by simp_all
  have client: "newClientFromAlias ?env = None" and client2: "newClientFromAlias ?env2 = None"
    by (simp_all add: backend_def)
  have ok: "list_all benign (clntList ?env)"
    by (simp add: scenario_defs benign_def)
  have errs: "clntRemove ?env = [PathInsufficientPermission ''/b/p/a'', OtherError ''disk failure'',
                PathInsufficientPermission ''/b/p/b'']"
    by (simp add: backend_def)
  have bad: "\<not> list_all benign (clntList ?env2)"
    by (simp add: scenario_defs benign_def)
  have sel: "selected (arrivals ?env2) (clntRemove ?env2)
      (filter (candidate (\<lambda>t s. False) (\<lambda>t s. False) [] []) (takeWhile benign (clntList ?env2)))
      = [PathInsufficientPermission ''/b/p/a'']"
    by (simp add: scenario_defs candidate_def benign_def)
  have errs2: "clntRemove ?env2
      = [PathInsufficientPermission ''/b/p/a'', PathInsufficientPermission ''/b/p/b'']"
    by (simp add: backend_def)
  note first = removeRecursive_close_and_drain [OF run client]
  from first [THEN conjunct1] have a1: "closes (trace (snd ?run)) = 1" .
  from first [THEN conjunct2, THEN conjunct2, THEN conjunct2, THEN conjunct1] ok errs
  have a2: "receivedOf (trace (snd ?run))
      = [PathInsufficientPermission ''/b/p/a'', OtherError ''disk failure'']"
    by simp
  from first [THEN conjunct2, THEN conjunct1] a2 errs
  have a3: "errorCh (snd ?run) = [PathInsufficientPermission ''/b/p/b'']"
    by simp
  note second = removeRecursive_close_and_drain [OF run2 client2]
  from second [THEN conjunct2, THEN conjunct2, THEN conjunct1] sel
  have b1: "receivedOf (beforeClose (trace (snd ?run2))) = [PathInsufficientPermission ''/b/p/a'']"
    by simp
  from second [THEN conjunct2, THEN conjunct2, THEN conjunct2, THEN conjunct1] bad b1
  have b2: "receivedOf (trace (snd ?run2)) = [PathInsufficientPermission ''/b/p/a'']"
    by simp
  from second [THEN conjunct2, THEN conjunct1] b2 errs2
  have b3: "errorCh (snd ?run2) = [PathInsufficientPermission ''/b/p/b'']"
    by simp
  from a1 a2 a3 b1 b3 show ?thesis by blast
qed

text \<open>
  C3 as stated fails on the early-abort path: the listing delivers a failure that is not
  of insufficient permission while the backend has a failure to deliver; the call
  closes the feed channel and returns, and that failure is never received.
\<close>

theorem removeRecursive_drain_counterexample:
  "removeRecursive (\<lambda>t s. False) (\<lambda>t s. False)
      (backend [failedEntry ''/b/p/x'' (OtherError ''listing failed'')]
               [OtherError ''disk failure''] [])
      ''s3/b/p/'' False False False [] []
   = (ExitStatusError,
      \<lparr>trace = [Logged (OtherError ''listing failed'') ''Failed to remove `s3/b/p/` recursively.'',
                Closed],
       errorCh = [OtherError ''disk failure'']\<rparr>)"
  by (simp add: removeRecursive_def scenario_defs emit_def Let_def)

subsection \<open>Fake runs\<close>

lemma singleErrLoop_sent:
  "singleErrLoop url errs tr = (r, tr') \<Longrightarrow>
   sentOf tr' = sentOf tr \<and> printedOf tr' = printedOf tr"
  by (induction url errs tr rule: singleErrLoop.induct)
     (auto simp: proj_append Let_def split: if_splits)

lemma removeSingle_fake:
  "removeSingle older newer senv url inc True force byp ot nt = (r, tr) \<Longrightarrow> sentOf tr = []"
  by (auto simp: removeSingle_def split: sum.splits list.splits if_splits)

lemma removeSingle_printed:
  assumes "removeSingle older newer senv url inc True force byp ot nt = (rf, tf)"
    and "removeSingle older newer senv url inc False force byp ot nt = (rr, tr)"
  shows "printedOf tf = printedOf tr
     \<and> (newClient senv = None \<longrightarrow> length (sentOf tr) = length (printedOf tf))"
proof (cases "statURL senv")
  case (Inl e)
  with assms show ?thesis by (auto simp: removeSingle_def)
next
  case (Inr contents)
  show ?thesis
  proof (cases contents)
    case Nil
    with Inr assms show ?thesis by (auto simp: removeSingle_def split: if_splits)
  next
    case (Cons content others)
    show ?thesis
    proof (cases "(ot \<noteq> [] \<and> older (Time content) ot) \<or> (nt \<noteq> [] \<and> newer (Time content) nt)")
      case True
      with Inr Cons assms show ?thesis by (auto simp: removeSingle_def split: if_splits)
    next
      case False
      with Inr Cons assms(1) have f: "tf = [Printed \<lparr>Key = url, MsgSize = Size content\<rparr>]"
        by (auto simp: removeSingle_def Let_def split: if_splits)
      show ?thesis
      proof (cases "newClient senv")
        case None
        with False Inr Cons assms(2) obtain u where
          "singleErrLoop url (clntRemoveOne senv)
             ([Printed \<lparr>Key = url, MsgSize = Size content\<rparr>] @ [Sent (contentOfURL u), Closed])
           = (rr, tr)"
          by (auto simp: removeSingle_def Let_def split: if_splits)
        from singleErrLoop_sent [OF this] f show ?thesis by simp
      next
        case (Some e)
        with False Inr Cons assms(2) f show ?thesis
          by (auto simp: removeSingle_def Let_def split: if_splits)
      qed
    qed
  qed
qed

lemma removeRecursive_fake:
  assumes "removeRecursive older newer env url inc True byp ot nt = (rf, sf)"
  shows "sentOf (trace sf) = []
     \<and> printedOf (trace sf)
         = (case newClientFromAlias env of
              Some e \<Rightarrow> []
            | None \<Rightarrow> map (rmMsg (targetAlias env))
                       (filter (candidate older newer ot nt) (takeWhile benign (clntList env))))"
proof (cases "newClientFromAlias env")
  case (Some e)
  with assms show ?thesis by (auto simp: removeRecursive_no_client)
next
  case None
  from assms None show ?thesis
  proof (cases rule: removeRecursive_cases)
    case aborted
    from listLoop_fake [OF aborted(1)] None show ?thesis by simp
  next
    case (fed st1)
    from listLoop_fake [OF fed(1)] drainLoop_sent [OF fed(2)] None show ?thesis
      by (simp add: emit_simps)
  qed
qed

lemma removeRecursive_real_sent:
  assumes "removeRecursive older newer env url inc False byp ot nt = (rr, sr)"
    and "newClientFromAlias env = None"
  shows "(\<exists>rest. filter (candidate older newer ot nt) (takeWhile benign (clntList env))
                 = sentOf (trace sr) @ rest)
     \<and> ((\<forall>e \<in> set (clntRemove env). isInsufficientPermission e) \<longrightarrow>
          sentOf (trace sr)
            = filter (candidate older newer ot nt) (takeWhile benign (clntList env)))"
  using assms
proof (cases rule: removeRecursive_cases)
  case aborted
  from listLoop_prefix [OF aborted(1)] listLoop_real_perm [OF aborted(1)] show ?thesis
    by simp
next
  case (fed st1)
  from listLoop_prefix [OF fed(1)] listLoop_real_perm [OF fed(1)] drainLoop_sent [OF fed(2)]
  show ?thesis by (simp add: emit_simps)
qed

lemma removeSingle_fake_printed:
  assumes "statURL senv = Inr (c # cs)" and "\<not> (ot \<noteq> [] \<and> older (Time c) ot)"
    and "\<not> (nt \<noteq> [] \<and> newer (Time c) nt)"
  shows "removeSingle older newer senv url inc True force byp ot nt
     = (ReturnNil, [Printed \<lparr>Key = url, MsgSize = Size c\<rparr>])"
  using assms by (auto simp: removeSingle_def Let_def)

lemma removeSingle_real_sent:
  assumes "statURL senv = Inr (c # cs)" and "\<not> (ot \<noteq> [] \<and> older (Time c) ot)"
    and "\<not> (nt \<noteq> [] \<and> newer (Time c) nt)"
    and "removeSingle older newer senv url inc False force byp ot nt = (r, tr)"
  shows "printedOf tr = [\<lparr>Key = url, MsgSize = Size c\<rparr>]
     \<and> map URL (sentOf tr)
         = (case newClient senv of
              Some e \<Rightarrow> []
            | None \<Rightarrow>
                [if \<not> HasSuffix (targetURL senv) [clntSeparator senv] \<and> IsDir (Type c)
                 then targetURL senv @ [clntSeparator senv] else targetURL senv])"
proof (cases "newClient senv")
  case (Some e)
  with assms show ?thesis
    by (auto simp: removeSingle_def Let_def)
next
  case None
  let ?t = "if \<not> HasSuffix (targetURL senv) [clntSeparator senv] \<and> IsDir (Type c)
            then targetURL senv @ [clntSeparator senv] else targetURL senv"
  from assms None have
    "singleErrLoop url (clntRemoveOne senv)
       ([Printed \<lparr>Key = url, MsgSize = Size c\<rparr>] @ [Sent (contentOfURL ?t), Closed]) = (r, tr)"
    by (auto simp: removeSingle_def Let_def split: if_splits)
  from singleErrLoop_sent [OF this] None show ?thesis
    by (simp add: contentOfURL_def)
qed

lemma removeSingle_quiet:
  assumes "removeSingle older newer senv url inc True force byp ot nt = (rf, tf)"
    and "removeSingle older newer senv url inc False force byp ot nt = (rr, tr)"
    and "printedOf tf = []"
  shows "sentOf tr = []"
proof (cases "statURL senv")
  case (Inl e)
  with assms show ?thesis by (auto simp: removeSingle_def)
next
  case (Inr contents)
  show ?thesis
  proof (cases contents)
    case Nil
    with Inr assms show ?thesis by (auto simp: removeSingle_def split: if_splits)
  next
    case (Cons c cs)
    show ?thesis
    proof (cases "(ot \<noteq> [] \<and> older (Time c) ot) \<or> (nt \<noteq> [] \<and> newer (Time c) nt)")
      case True
      with Inr Cons assms show ?thesis by (auto simp: removeSingle_def split: if_splits)
    next
      case False
      with removeSingle_fake_printed [of senv c cs ot older nt newer url inc force byp]
        Inr Cons assms(1,3)
      show ?thesis by auto
    qed
  qed
qed


text \<open>
  C10 (as the code has it). A fake run of \<open>removeRecursive\<close> or \<open>removeSingle\<close> sends
  nothing to the backend's \<open>Remove\<close>. The fake recursive run lists and filters: it prints
  the messages of the candidates listed before any failure of the listing that is not of
  insufficient permission. The real run sends a leading part of these candidates, in
  order, and all of them when the backend delivers no failure other than insufficient
  permission. The fake single run prints what the real one prints, and when it prints
  nothing the real one sends nothing; when the stat gives a content that the age tests do
  not skip, what is printed is the one message for the URL, and the real run sends the one
  descriptor made from the expanded URL (with the separator added for a directory) when
  its client is made, and none when it is not.
\<close>

theorem fake_run_reports_candidates:
  assumes "removeRecursive older newer env url inc True byp ot nt = (rf, sf)"
    and "removeRecursive older newer env url inc False byp ot nt = (rr, sr)"
    and "removeSingle older newer senv url1 inc True force byp ot nt = (rf1, tf)"
    and "removeSingle older newer senv url1 inc False force byp ot nt = (rr1, tr)"
  shows "sentOf (trace sf) = [] \<and> sentOf tf = []
     \<and> printedOf (trace sf)
         = (case newClientFromAlias env of
              Some e \<Rightarrow> []
            | None \<Rightarrow> map (rmMsg (targetAlias env))
                       (filter (candidate older newer ot nt) (takeWhile benign (clntList env))))
     \<and> (\<exists>rest. printedOf (trace sf)
                 = map (rmMsg (targetAlias env)) (sentOf (trace sr)) @ rest)
     \<and> ((\<forall>e \<in> set (clntRemove env). isInsufficientPermission e) \<longrightarrow>
          printedOf (trace sf) = map (rmMsg (targetAlias env)) (sentOf (trace sr)))
     \<and> printedOf tf = printedOf tr
     \<and> (printedOf tf = [] \<longrightarrow> sentOf tr = [])
     \<and> (\<forall>c cs. statURL senv = Inr (c # cs)
           \<and> \<not> (ot \<noteq> [] \<and> older (Time c) ot) \<and> \<not> (nt \<noteq> [] \<and> newer (Time c) nt) \<longrightarrow>
           printedOf tf = [\<lparr>Key = url1, MsgSize = Size c\<rparr>]
           \<and> map URL (sentOf tr)
               = (case newClient senv of
                    Some e \<Rightarrow> []
                  | None \<Rightarrow>
                      [if \<not> HasSuffix (targetURL senv) [clntSeparator senv] \<and> IsDir (Type c)
                       then targetURL senv @ [clntSeparator senv] else targetURL senv]))"
proof -
  have rec: "(\<exists>rest. printedOf (trace sf)
                 = map (rmMsg (targetAlias env)) (sentOf (trace sr)) @ rest)
     \<and> ((\<forall>e \<in> set (clntRemove env). isInsufficientPermission e) \<longrightarrow>
          printedOf (trace sf) = map (rmMsg (targetAlias env)) (sentOf (trace sr)))"
  proof (cases "newClientFromAlias env")
    case (Some e)
    with assms(1,2) show ?thesis by (auto simp: removeRecursive_no_client)
  next
    case None
    from removeRecursive_real_sent [OF assms(2) None] obtain rest where
      pre: "filter (candidate older newer ot nt) (takeWhile benign (clntList env))
              = sentOf (trace sr) @ rest"
      and eq: "(\<forall>e \<in> set (clntRemove env). isInsufficientPermission e) \<longrightarrow>
          sentOf (trace sr)
            = filter (candidate older newer ot nt) (takeWhile benign (clntList env))"
      by blast
    from removeRecursive_fake [OF assms(1)] None
    have pf: "printedOf (trace sf) = map (rmMsg (targetAlias env))
                (filter (candidate older newer ot nt) (takeWhile benign (clntList env)))"
      by simp
    from pf pre have "printedOf (trace sf)
        = map (rmMsg (targetAlias env)) (sentOf (trace sr)) @ map (rmMsg (targetAlias env)) rest"
      by simp
    then have ex: "\<exists>rest. printedOf (trace sf)
        = map (rmMsg (targetAlias env)) (sentOf (trace sr)) @ rest"
      by blast
    from pf eq have "(\<forall>e \<in> set (clntRemove env). isInsufficientPermission e) \<longrightarrow>
          printedOf (trace sf) = map (rmMsg (targetAlias env)) (sentOf (trace sr))"
      by simp
    with ex show ?thesis by blast
  qed
  have single: "\<forall>c cs. statURL senv = Inr (c # cs)
           \<and> \<not> (ot \<noteq> [] \<and> older (Time c) ot) \<and> \<not> (nt \<noteq> [] \<and> newer (Time c) nt) \<longrightarrow>
           printedOf tf = [\<lparr>Key = url1, MsgSize = Size c\<rparr>]
           \<and> map URL (sentOf tr)
               = (case newClient senv of
                    Some e \<Rightarrow> []
                  | None \<Rightarrow>
                      [if \<not> HasSuffix (targetURL senv) [clntSeparator senv] \<and> IsDir (Type c)
                       then targetURL senv @ [clntSeparator senv] else targetURL senv])"
  proof (intro allI impI)
    fix c cs
    assume h: "statURL senv = Inr (c # cs)
           \<and> \<not> (ot \<noteq> [] \<and> older (Time c) ot) \<and> \<not> (nt \<noteq> [] \<and> newer (Time c) nt)"
    then have st: "statURL senv = Inr (c # cs)" and no: "\<not> (ot \<noteq> [] \<and> older (Time c) ot)"
      and nn: "\<not> (nt \<noteq> [] \<and> newer (Time c) nt)"
      by simp_all
    from removeSingle_fake_printed [where older = older and newer = newer and url = url1
        and inc = inc and force = force and byp = byp, OF st no nn] assms(3)
    have "printedOf tf = [\<lparr>Key = url1, MsgSize = Size c\<rparr>]"
      by auto
    with removeSingle_real_sent [where older = older and newer = newer, OF st no nn assms(4)]
    show "printedOf tf = [\<lparr>Key = url1, MsgSize = Size c\<rparr>]
           \<and> map URL (sentOf tr)
               = (case newClient senv of
                    Some e \<Rightarrow> []
                  | None \<Rightarrow>
                      [if \<not> HasSuffix (targetURL senv) [clntSeparator senv] \<and> IsDir (Type c)
                       then targetURL senv @ [clntSeparator senv] else targetURL senv])"
      by simp
  qed
  from removeSingle_printed [OF assms(3,4)] have same: "printedOf tf = printedOf tr"
    by simp
  from removeSingle_quiet [OF assms(3,4)] have quiet: "printedOf tf = [] \<longrightarrow> sentOf tr = []"
    by simp
  from rec removeRecursive_fake [OF assms(1)] removeSingle_fake [OF assms(3)] same quiet single
  show ?thesis by blast
qed

theorem fake_run_reports_candidates_witness:
  "printedOf (trace (snd (removeRecursive (\<lambda>t s. False) (\<lambda>t s. False)
      (backend [entryAt ''/b/p/a'' 100, entryAt ''/b/p/'' 0, entryAt ''/b/p/b'' 200] [] [])
      ''s3/b/p/'' False True False [] [])))
     = [\<lparr>Key = ''s3/b/p/a'', MsgSize = 0\<rparr>, \<lparr>Key = ''s3/b/p/b'', MsgSize = 0\<rparr>]
   \<and> sentOf (trace (snd (removeRecursive (\<lambda>t s. False) (\<lambda>t s. False)
      (backend [entryAt ''/b/p/a'' 100, entryAt ''/b/p/'' 0, entryAt ''/b/p/b'' 200] [] [])
      ''s3/b/p/'' False True False [] []))) = []
   \<and> sentOf (trace (snd (removeRecursive (\<lambda>t s. False) (\<lambda>t s. False)
      (backend [entryAt ''/b/p/a'' 100, entryAt ''/b/p/'' 0, entryAt ''/b/p/b'' 200] [] [])
      ''s3/b/p/'' False False False [] [])))
     = [entryAt ''/b/p/a'' 100, entryAt ''/b/p/b'' 200]
   \<and> printedOf (snd (removeSingle (\<lambda>t s. False) (\<lambda>t s. False)
      (backendOne [entryAt ''/b/p/a'' 100] ''https://s3.example.com/b/p/a'' [])
      ''s3/b/p/a'' False True False False [] [])) = [\<lparr>Key = ''s3/b/p/a'', MsgSize = 0\<rparr>]
   \<and> sentOf (snd (removeSingle (\<lambda>t s. False) (\<lambda>t s. False)
      (backendOne [entryAt ''/b/p/a'' 100] ''https://s3.example.com/b/p/a'' [])
      ''s3/b/p/a'' False True False False [] [])) = []
   \<and> map URL (sentOf (snd (removeSingle (\<lambda>t s. False) (\<lambda>t s. False)
      (backendOne [entryAt ''/b/p/a'' 100] ''https://s3.example.com/b/p/a'' [])
      ''s3/b/p/a'' False False False False [] []))) = [''https://s3.example.com/b/p/a'']"
proof -
  let ?env = "backend [entryAt ''/b/p/a'' 100, entryAt ''/b/p/'' 0, entryAt ''/b/p/b'' 200] [] []"
  let ?senv = "backendOne [entryAt ''/b/p/a'' 100] ''https://s3.example.com/b/p/a'' []"
  let ?fake = "removeRecursive (\<lambda>t s. False) (\<lambda>t s. False) ?env ''s3/b/p/'' False True False [] []"
  let ?real = "removeRecursive (\<lambda>t s. False) (\<lambda>t s. False) ?env ''s3/b/p/'' False False False [] []"
  let ?fakeS = "removeSingle (\<lambda>t s. False) (\<lambda>t s. False) ?senv ''s3/b/p/a'' False True False False [] []"
  let ?realS = "removeSingle (\<lambda>t s. False) (\<lambda>t s. False) ?senv ''s3/b/p/a'' False False False False [] []"
  have runs: "?fake = (fst ?fake, snd ?fake)" "?real = (fst ?real, snd ?real)"
    "?fakeS = (fst ?fakeS, snd ?fakeS)" "?realS = (fst ?realS, snd ?realS)"
    by simp_all
  note all = fake_run_reports_candidates [OF runs]
  have client: "newClientFromAlias ?env = None"
    by (simp add: backend_def)
  have cand: "map (rmMsg (targetAlias ?env))
      (filter (candidate (\<lambda>t s. False) (\<lambda>t s. False) [] []) (takeWhile benign (clntList ?env)))
      = [\<lparr>Key = ''s3/b/p/a'', MsgSize = 0\<rparr>, \<lparr>Key = ''s3/b/p/b'', MsgSize = 0\<rparr>]"
    by (simp add: scenario_defs candidate_def benign_def rmMsg_def)
  from all [THEN conjunct2, THEN conjunct2, THEN conjunct1] client cand
  have p: "printedOf (trace (snd ?fake))
      = [\<lparr>Key = ''s3/b/p/a'', MsgSize = 0\<rparr>, \<lparr>Key = ''s3/b/p/b'', MsgSize = 0\<rparr>]"
    by simp
  from all [THEN conjunct1] all [THEN conjunct2, THEN conjunct1]
  have n: "sentOf (trace (snd ?fake)) = []" "sentOf (snd ?fakeS) = []"
    by simp_all
  have quiet: "\<forall>e \<in> set (clntRemove ?env). isInsufficientPermission e"
    by (simp add: backend_def)
  have stat: "statURL ?senv = Inr [entryAt ''/b/p/a'' 100]"
    by (simp add: backendOne_def)
  have target: "(case newClient ?senv of
                    Some e \<Rightarrow> []
                  | None \<Rightarrow>
                      [if \<not> HasSuffix (targetURL ?senv) [clntSeparator ?senv]
                          \<and> IsDir (Type (entryAt ''/b/p/a'' 100))
                       then targetURL ?senv @ [clntSeparator ?senv] else targetURL ?senv])
      = [''https://s3.example.com/b/p/a'']"
    by (simp add: backendOne_def scenario_defs IsDir_def ModeDir_def)
  from all [THEN conjunct2, THEN conjunct2, THEN conjunct2, THEN conjunct2, THEN conjunct2,
      THEN conjunct2, THEN conjunct2] stat target
  have s: "printedOf (snd ?fakeS) = [\<lparr>Key = ''s3/b/p/a'', MsgSize = Size (entryAt ''/b/p/a'' 100)\<rparr>]
      \<and> map URL (sentOf (snd ?realS)) = [''https://s3.example.com/b/p/a'']"
    by simp
  have sz: "Size (entryAt ''/b/p/a'' 100) = 0"
    by (simp add: scenario_defs)
  have real: "sentOf (trace (snd ?real)) = [entryAt ''/b/p/a'' 100, entryAt ''/b/p/b'' 200]"
    by (simp add: removeRecursive_def scenario_defs emit_def IsZero_def Let_def)
  from p n s sz real show ?thesis by simp
qed

text \<open>
  C10 as stated fails: the backend delivers a failure that is not of insufficient
  permission while the second of two candidates is offered; the real run sends the first
  candidate only, and the fake run with the same inputs prints both.
\<close>

theorem fake_run_counterexample:
  "printedOf (trace (snd (removeRecursive (\<lambda>t s. False) (\<lambda>t s. False)
      (backend [entryAt ''/b/p/a'' 100, entryAt ''/b/p/b'' 200] [OtherError ''disk failure''] [0, 1])
      ''s3/b/p/'' False True False [] [])))
     = [\<lparr>Key = ''s3/b/p/a'', MsgSize = 0\<rparr>, \<lparr>Key = ''s3/b/p/b'', MsgSize = 0\<rparr>]
   \<and> sentOf (trace (snd (removeRecursive (\<lambda>t s. False) (\<lambda>t s. False)
      (backend [entryAt ''/b/p/a'' 100, entryAt ''/b/p/b'' 200] [OtherError ''disk failure''] [0, 1])
      ''s3/b/p/'' False False False [] [])))
     = [entryAt ''/b/p/a'' 100]"
  by (simp add: removeRecursive_def scenario_defs emit_def IsZero_def Let_def)

subsection \<open>Age filters\<close>



text \<open>
  C6. Recursive removal of \<open>s3/bucket/prefix/\<close> with \<open>older-than="90d"\<close>, the listing
  holding timestamped entries aged 10, 95 and 200 days and the backend reporting no
  failure: exactly the entries aged 95 and 200 days are sent to the backend's remove
  call, in this order; the entry aged 10 days is skipped.
\<close>

theorem older_than_scenario:
  assumes "ParseDuration ''90d'' = 90 * day" and "200 * day < now"
  shows "sentOf (trace (snd (removeRecursive (isOlder now ParseDuration) (isNewer now ParseDuration)
            (backend [entryAt u10 (now - 10 * day), entryAt u95 (now - 95 * day),
                      entryAt u200 (now - 200 * day)] [] arr)
            ''s3/bucket/prefix/'' inc False byp ''90d'' [])))
         = [entryAt u95 (now - 95 * day), entryAt u200 (now - 200 * day)]"
proof -
  let ?env = "backend [entryAt u10 (now - 10 * day), entryAt u95 (now - 95 * day),
                      entryAt u200 (now - 200 * day)] [] arr"
  let ?run = "removeRecursive (isOlder now ParseDuration) (isNewer now ParseDuration) ?env
                ''s3/bucket/prefix/'' inc False byp ''90d'' []"
  have run: "?run = (fst ?run, snd ?run)"
    by simp
  have client: "newClientFromAlias ?env = None"
    by (simp add: backend_def)
  have ok: "list_all benign (clntList ?env)"
    by (simp add: scenario_defs benign_def)
  have quiet: "\<forall>e \<in> set (clntRemove ?env). isInsufficientPermission e"
    by (simp add: backend_def)
  from assms have cand:
    "filter (candidate (isOlder now ParseDuration) (isNewer now ParseDuration) ''90d'' [])
       (clntList ?env) = [entryAt u95 (now - 95 * day), entryAt u200 (now - 200 * day)]"
    by (simp add: scenario_defs candidate_def isOlder_def)
  from removeRecursive_benign [OF run client ok quiet] cand show ?thesis
    by simp
qed

theorem older_than_scenario_witness:
  "sentOf (trace (snd (removeRecursive
       (isOlder (1000 * day) ParseDuration90) (isNewer (1000 * day) ParseDuration90)
       (backend [entryAt ''/bucket/prefix/a'' (1000 * day - 10 * day),
                 entryAt ''/bucket/prefix/b'' (1000 * day - 95 * day),
                 entryAt ''/bucket/prefix/c'' (1000 * day - 200 * day)] [] [])
       ''s3/bucket/prefix/'' False False False ''90d'' [])))
   = [entryAt ''/bucket/prefix/b'' (1000 * day - 95 * day),
      entryAt ''/bucket/prefix/c'' (1000 * day - 200 * day)]"
proof -
  have d: "ParseDuration90 ''90d'' = 90 * day"
    by (simp add: ParseDuration90_def)
  have n: "200 * day < 1000 * day"
    by (simp add: day_def)
  from older_than_scenario [where ParseDuration = ParseDuration90 and now = "1000 * day", OF d n]
  show ?thesis .
qed





section \<open>Properties of the copy/put pipeline\<close>

subsection \<open>Merging and filtering metadata\<close>

lemma layer_Nil: "layer d [] = Map.empty"
  by (simp add: layer_def)

lemma layer_Cons: "layer d ((k, v) # m) = [CanonicalHeaderKey d k \<mapsto> v] ++ layer d m"
  by (simp add: layer_def)

lemma map_of_mergeCanonical: "map_of (mergeCanonical d md m) = map_of md ++ layer d m"
proof (induction m arbitrary: md)
  case Nil
  then show ?case by (simp add: mergeCanonical_def layer_Nil)
next
  case (Cons kv m)
  obtain k v where kv: "kv = (k, v)" by (cases kv)
  have "map_of (mergeCanonical d md (kv # m))
      = map_of (mergeCanonical d (AList.update (CanonicalHeaderKey d k) v md) m)"
    by (simp add: mergeCanonical_def kv)
  also have "\<dots> = map_of (AList.update (CanonicalHeaderKey d k) v md) ++ layer d m"
    by (rule Cons.IH)
  also have "\<dots> = (map_of md ++ [CanonicalHeaderKey d k \<mapsto> v]) ++ layer d m"
    by (simp add: update_conv')
  also have "\<dots> = map_of md ++ layer d (kv # m)"
    by (simp only: kv layer_Cons map_add_assoc)
  finally show ?case .
qed

lemma distinct_mergeCanonical:
  "distinct (map fst md) \<Longrightarrow> distinct (map fst (mergeCanonical d md m))"
proof (induction m arbitrary: md)
  case Nil
  then show ?case by (simp add: mergeCanonical_def)
next
  case (Cons kv m)
  obtain k v where kv: "kv = (k, v)" by (cases kv)
  from Cons.prems have "distinct (map fst (AList.update (CanonicalHeaderKey d k) v md))"
    by (simp add: distinct_update)
  from Cons.IH [OF this] show ?case by (simp add: mergeCanonical_def kv)
qed

lemma map_of_filter_distinct:
  "distinct (map fst md) \<Longrightarrow>
   map_of (filter P md) k
     = (case map_of md k of None \<Rightarrow> None | Some v \<Rightarrow> if P (k, v) then Some v else None)"
proof (induction md)
  case Nil
  then show ?case by simp
next
  case (Cons kv md)
  obtain k' v' where kv: "kv = (k', v')" by (cases kv)
  from Cons.prems kv have notin: "k' \<notin> fst ` set md" and dist: "distinct (map fst md)"
    by auto
  from notin have none: "map_of md k' = None"
    by (simp add: map_of_eq_None_iff)
  show ?case
  proof (cases "k = k'")
    case True
    with Cons.IH [OF dist] none kv show ?thesis by simp
  next
    case False
    with Cons.IH [OF dist] kv show ?thesis by simp
  qed
qed

lemma map_of_delete_prefixed:
  "map_of (foldl (\<lambda>nm (k, v). if Q k then AList.delete k nm else nm) nm0 xs) k
     = (if Q k \<and> k \<in> fst ` set xs then None else map_of nm0 k)"
proof (induction xs arbitrary: nm0)
  case Nil
  then show ?case by simp
next
  case (Cons kv xs)
  obtain k' v' where kv: "kv = (k', v')" by (cases kv)
  show ?case
    by (auto simp add: kv Cons.IH delete_conv')
qed

lemma map_of_filterMetadata:
  assumes "distinct (map fst md)"
  shows "map_of (filterMetadata d md) = kept d (map_of md)"
proof
  fix k
  have keys: "map_of md k = Some v \<Longrightarrow> k \<in> fst ` set md" for v
    by (force dest: map_of_SomeD)
  show "map_of (filterMetadata d md) k = kept d (map_of md) k"
    using keys
    by (auto simp: filterMetadata_def Let_def kept_def map_of_delete_prefixed
        map_of_filter_distinct [OF assms] split: option.splits)
qed

lemma distinct_filterMetadata:
  "distinct (map fst md) \<Longrightarrow> distinct (map fst (filterMetadata d md))"
proof -
  have del: "\<And>nm. distinct (map fst nm) \<Longrightarrow>
      distinct (map fst (foldl (\<lambda>nm (k, v). if Q k then AList.delete k nm else nm) nm xs))"
    for Q :: "string \<Rightarrow> bool" and xs :: gomap
  proof (induction xs)
    case Nil
    then show ?case by simp
  next
    case (Cons kv xs)
    obtain k' v' where kv: "kv = (k', v')" by (cases kv)
    from Cons.prems have "distinct (map fst (if Q k' then AList.delete k' nm else nm))"
      by (simp add: distinct_delete)
    from Cons.IH [OF this] show ?case by (simp add: kv)
  qed
  assume "distinct (map fst md)"
  then have "distinct (map fst (filter (validHeader d) md))"
    by (simp add: distinct_map_filter)
  from del [OF this] show ?thesis
    by (simp add: filterMetadata_def Let_def)
qed

subsection \<open>The branches of \<open>uploadSourceToTargetURL\<close>\<close>

lemma upload_lock_error:
  "targetLockFields d env urls = Inl e \<Longrightarrow>
   uploadSourceToTargetURL d env urls preserve = (Some e, [])"
  by (simp add: uploadSourceToTargetURL_def Let_def)

lemma upload_metadata_error:
  "targetLockFields d env urls = Inr f \<Longrightarrow>
   SourceAlias urls = TargetAlias urls \<or> RetentionEnabled (SourceContent urls) \<Longrightarrow>
   populatedMetadata d env urls preserve (callerMetadata d urls) = (Inl e, cs) \<Longrightarrow>
   uploadSourceToTargetURL d env urls preserve = (Some e, cs)"
  by (cases f) (auto simp: uploadSourceToTargetURL_def callerMetadata_def Let_def)

lemma upload_retention:
  "targetLockFields d env urls = Inr f \<Longrightarrow>
   RetentionEnabled (SourceContent urls) \<Longrightarrow>
   populatedMetadata d env urls preserve (callerMetadata d urls) = (Inr md, cs) \<Longrightarrow>
   uploadSourceToTargetURL d env urls preserve
     = (fst (putTargetRetention d env (TargetAlias urls) (URL (TargetContent urls)) md),
        cs @ snd (putTargetRetention d env (TargetAlias urls) (URL (TargetContent urls)) md))"
  by (cases f)
     (auto simp: uploadSourceToTargetURL_def callerMetadata_def Let_def split: prod.splits)

lemma upload_copy:
  "targetLockFields d env urls = Inr (mode, until, legalHold) \<Longrightarrow>
   SourceAlias urls = TargetAlias urls \<Longrightarrow>
   \<not> RetentionEnabled (SourceContent urls) \<Longrightarrow>
   populatedMetadata d env urls preserve (callerMetadata d urls) = (Inr md, cs) \<Longrightarrow>
   uploadSourceToTargetURL d env urls preserve
     = (fst (copySourceToTargetURL d env (TargetAlias urls) (URL (TargetContent urls))
               (ToSlash (filepathSeparator d) (URL (SourceContent urls))) mode until legalHold
               (Size (SourceContent urls)) (filterMetadata d md) (DisableMultipart urls)),
        cs @ snd (copySourceToTargetURL d env (TargetAlias urls) (URL (TargetContent urls))
               (ToSlash (filepathSeparator d) (URL (SourceContent urls))) mode until legalHold
               (Size (SourceContent urls)) (filterMetadata d md) (DisableMultipart urls)))"
  by (auto simp: uploadSourceToTargetURL_def callerMetadata_def Let_def split: prod.splits)

lemma upload_stream_error:
  "targetLockFields d env urls = Inr f \<Longrightarrow>
   SourceAlias urls \<noteq> TargetAlias urls \<Longrightarrow>
   \<not> RetentionEnabled (SourceContent urls) \<Longrightarrow>
   getSourceStream d env (SourceAlias urls) (URL (SourceContent urls)) True preserve
     = (Inl e, cs) \<Longrightarrow>
   uploadSourceToTargetURL d env urls preserve = (Some e, cs)"
  by (cases f) (auto simp: uploadSourceToTargetURL_def Let_def)

lemma upload_stream:
  "targetLockFields d env urls = Inr (mode, until, legalHold) \<Longrightarrow>
   SourceAlias urls \<noteq> TargetAlias urls \<Longrightarrow>
   \<not> RetentionEnabled (SourceContent urls) \<Longrightarrow>
   getSourceStream d env (SourceAlias urls) (URL (SourceContent urls)) True preserve
     = (Inr (reader, smd), cs) \<Longrightarrow>
   uploadSourceToTargetURL d env urls preserve
     = (fst (putTargetStream d env (TargetAlias urls) (URL (TargetContent urls)) mode until
               legalHold (\<not> isReadAt reader) (Size (SourceContent urls))
               (filterMetadata d
                  (mergeCanonical d (mergeCanonical d smd (Metadata (TargetContent urls)))
                     (UserMetadata (TargetContent urls))))
               (MD5 urls) (DisableMultipart urls)),
        cs @ snd (putTargetStream d env (TargetAlias urls) (URL (TargetContent urls)) mode until
               legalHold (\<not> isReadAt reader) (Size (SourceContent urls))
               (filterMetadata d
                  (mergeCanonical d (mergeCanonical d smd (Metadata (TargetContent urls)))
                     (UserMetadata (TargetContent urls))))
               (MD5 urls) (DisableMultipart urls)))"
  by (auto simp: uploadSourceToTargetURL_def Let_def split: prod.splits)

subsection \<open>The calls of the helpers\<close>

lemma getAllMetadata_calls:
  "getAllMetadata d env a u urls preserve = (r, cs) \<Longrightarrow> list_all quiet cs"
  by (auto simp: getAllMetadata_def quiet_def split: option.splits sum.splits)

lemma populatedMetadata_calls:
  "populatedMetadata d env urls preserve md0 = (r, cs) \<Longrightarrow> list_all quiet cs"
  by (auto simp: populatedMetadata_def split: if_splits prod.splits sum.splits
      dest: getAllMetadata_calls)

lemma populatedMetadata_caller:
  "md0 \<noteq> [] \<Longrightarrow>
   populatedMetadata d env urls preserve md0
     = (Inr (mergeCanonical d (mergeCanonical d md0 (Metadata (TargetContent urls)))
               (UserMetadata (TargetContent urls))), [])"
  by (simp add: populatedMetadata_def)

lemma putTargetRetention_calls:
  "putTargetRetention d env a u md
     = (case clientError env a u of
          Some e \<Rightarrow> (Some e, [])
        | None \<Rightarrow>
            (clntPutObjectRetention env,
             [PutObjectRetentionCall a u
                (case map_of md (AmzObjectLockMode d) of Some s \<Rightarrow> s | None \<Rightarrow> [])
                (case map_of md (AmzObjectLockRetainUntilDate d) of
                   Some s \<Rightarrow> parseRFC3339 d s | None \<Rightarrow> None)]))"
  by (simp add: putTargetRetention_def Let_def split: option.splits)

lemma getSourceStream_calls:
  "getSourceStream d env a u fetchStat preserve = (r, cs) \<Longrightarrow>
   list_all (\<lambda>c. \<not> isPut c \<and> \<not> isCopy c \<and> \<not> isPutObjectRetention c) cs
   \<and> (clientError env a u = None \<longrightarrow> cs \<noteq> [] \<and> hd cs = GetCall a u)"
  by (auto simp: getSourceStream_def Let_def split: option.splits sum.splits if_splits prod.splits)

lemma copySourceToTargetURL_calls:
  "copySourceToTargetURL d env a u source mode until legalHold sz md dm
     = (case clientError env a u of
          Some e \<Rightarrow> (Some e, [])
        | None \<Rightarrow>
            (clntCopy env,
             [CopyCall a u source sz
                (AList.update (AmzObjectLockLegalHold d) legalHold
                   (AList.update (AmzObjectLockRetainUntilDate d) until
                      (AList.update (AmzObjectLockMode d) mode md))) dm]))"
  by (simp add: copySourceToTargetURL_def Let_def split: option.splits)

lemma putTargetStream_calls:
  "putTargetStream d env a u mode until legalHold limited sz md md5 dm
     = (case clientError env a u of
          Some e \<Rightarrow> (Some e, [])
        | None \<Rightarrow>
            (clntPut env,
             [PutCall a u limited sz
                ((if legalHold \<noteq> [] then AList.update (AmzObjectLockLegalHold d) legalHold
                  else id)
                   ((if until \<noteq> [] then AList.update (AmzObjectLockRetainUntilDate d) until
                     else id)
                      ((if mode \<noteq> [] then AList.update (AmzObjectLockMode d) mode else id) md)))
                md5 dm]))"
  by (simp add: putTargetStream_def Let_def split: option.splits)

lemma list_all_quiet:
  "list_all quiet cs \<Longrightarrow>
   \<not> (\<exists>c \<in> set cs. isGet c \<or> isPut c \<or> isCopy c \<or> isPutObjectRetention c)
   \<and> filter isCopy cs = [] \<and> filter isPut cs = [] \<and> filter isPutObjectRetention cs = []"
  by (induction cs) (auto simp: quiet_def)

lemma upload_retention_calls:
  assumes "uploadSourceToTargetURL d env urls preserve = (err, calls)"
    and "RetentionEnabled (SourceContent urls)"
  shows "\<not> (\<exists>c \<in> set calls. isGet c \<or> isPut c \<or> isCopy c)
     \<and> length (filter isPutObjectRetention calls) \<le> 1"
proof (cases "targetLockFields d env urls")
  case (Inl e)
  with assms upload_lock_error [OF Inl] show ?thesis by simp
next
  case (Inr f)
  obtain r cs where pm: "populatedMetadata d env urls preserve (callerMetadata d urls) = (r, cs)"
    by (cases "populatedMetadata d env urls preserve (callerMetadata d urls)") auto
  note q = list_all_quiet [OF populatedMetadata_calls [OF pm]]
  show ?thesis
  proof (cases r)
    case e: (Inl e)
    from upload_metadata_error [OF Inr _ pm [unfolded e]] assms q show ?thesis by auto
  next
    case md: (Inr md)
    from upload_retention [OF Inr assms(2) pm [unfolded md]] assms(1) q show ?thesis
      by (auto simp: putTargetRetention_calls split: option.splits)
  qed
qed

text \<open>
  C5. When the source content has retention enabled, \<open>uploadSourceToTargetURL\<close> issues no
  \<open>Copy\<close>, \<open>Get\<close> or \<open>Put\<close>, and at most one \<open>PutObjectRetention\<close>. When the target's lock
  fields are valid, the metadata is obtained and the client is made, that one call is the
  last thing the function does and its result is returned; the lock mode and
  retain-until date it passes are read from the merged metadata as it stands, without
  the filtering of the copy path; and when the caller had put metadata into the source
  content, it is the only call on the backend.
\<close>

theorem retention_only_update:
  assumes "uploadSourceToTargetURL d env urls preserve = (err, calls)"
    and "RetentionEnabled (SourceContent urls)"
  shows "\<not> (\<exists>c \<in> set calls. isGet c \<or> isPut c \<or> isCopy c)
     \<and> length (filter isPutObjectRetention calls) \<le> 1
     \<and> (\<forall>f md cs.
           targetLockFields d env urls = Inr f
           \<and> populatedMetadata d env urls preserve (callerMetadata d urls) = (Inr md, cs)
           \<and> clientError env (TargetAlias urls) (URL (TargetContent urls)) = None
           \<longrightarrow> err = clntPutObjectRetention env
               \<and> calls = cs @ [PutObjectRetentionCall (TargetAlias urls) (URL (TargetContent urls))
                    (case map_of md (AmzObjectLockMode d) of Some s \<Rightarrow> s | None \<Rightarrow> [])
                    (case map_of md (AmzObjectLockRetainUntilDate d) of
                       Some s \<Rightarrow> parseRFC3339 d s | None \<Rightarrow> None)]
               \<and> list_all quiet cs
               \<and> (callerMetadata d urls \<noteq> [] \<longrightarrow>
                    cs = []
                    \<and> map_of md = layer d (UserMetadata (SourceContent urls))
                                   ++ layer d (Metadata (SourceContent urls))
                                   ++ layer d (Metadata (TargetContent urls))
                                   ++ layer d (UserMetadata (TargetContent urls))))"
proof -
  have main: "err = clntPutObjectRetention env
               \<and> calls = cs @ [PutObjectRetentionCall (TargetAlias urls) (URL (TargetContent urls))
                    (case map_of md (AmzObjectLockMode d) of Some s \<Rightarrow> s | None \<Rightarrow> [])
                    (case map_of md (AmzObjectLockRetainUntilDate d) of
                       Some s \<Rightarrow> parseRFC3339 d s | None \<Rightarrow> None)]
               \<and> list_all quiet cs
               \<and> (callerMetadata d urls \<noteq> [] \<longrightarrow>
                    cs = []
                    \<and> map_of md = layer d (UserMetadata (SourceContent urls))
                                   ++ layer d (Metadata (SourceContent urls))
                                   ++ layer d (Metadata (TargetContent urls))
                                   ++ layer d (UserMetadata (TargetContent urls)))"
    if lock: "targetLockFields d env urls = Inr f"
      and pm: "populatedMetadata d env urls preserve (callerMetadata d urls) = (Inr md, cs)"
      and cl: "clientError env (TargetAlias urls) (URL (TargetContent urls)) = None"
    for f md cs
  proof -
    from upload_retention [OF lock assms(2) pm] assms(1) cl
    have a: "err = clntPutObjectRetention env"
      "calls = cs @ [PutObjectRetentionCall (TargetAlias urls) (URL (TargetContent urls))
                    (case map_of md (AmzObjectLockMode d) of Some s \<Rightarrow> s | None \<Rightarrow> [])
                    (case map_of md (AmzObjectLockRetainUntilDate d) of
                       Some s \<Rightarrow> parseRFC3339 d s | None \<Rightarrow> None)]"
      by (simp_all add: putTargetRetention_calls)
    have b: "cs = []
        \<and> map_of md = layer d (UserMetadata (SourceContent urls))
                       ++ layer d (Metadata (SourceContent urls))
                       ++ layer d (Metadata (TargetContent urls))
                       ++ layer d (UserMetadata (TargetContent urls))"
      if ne: "callerMetadata d urls \<noteq> []"
    proof -
      from populatedMetadata_caller [OF ne, of d env urls preserve] pm
      have "cs = []"
        "md = mergeCanonical d
                (mergeCanonical d (callerMetadata d urls) (Metadata (TargetContent urls)))
                (UserMetadata (TargetContent urls))"
        by simp_all
      then show ?thesis
        by (simp add: callerMetadata_def map_of_mergeCanonical)
    qed
    from a b populatedMetadata_calls [OF pm] show ?thesis by blast
  qed
  with upload_retention_calls [OF assms] show ?thesis by blast
qed


lemmas header_eval = CanonicalMIMEHeaderKey_def isTokenChar_def toUpperChar_def toLowerChar_def
  validFieldName_def validFieldValue_def validHeader_def char_of_def bit_0 Let_def

lemmas example_defs = exampleDeps_def exampleEnv_def transfer_def plainFile_def plainReader_def
  ownerSource_def retainedSource_def

theorem retention_only_update_witness:
  "uploadSourceToTargetURL exampleDeps exampleEnv
     (transfer ''s3'' retainedSource ''s3'' (plainFile ''/bucket/dest.txt'')) False
   = (None, [PutObjectRetentionCall ''s3'' ''/bucket/dest.txt'' ''GOVERNANCE'' None])"
proof -
  let ?urls = "transfer ''s3'' retainedSource ''s3'' (plainFile ''/bucket/dest.txt'')"
  let ?run = "uploadSourceToTargetURL exampleDeps exampleEnv ?urls False"
  have run: "?run = (fst ?run, snd ?run)"
    by simp
  have ret: "RetentionEnabled (SourceContent ?urls)"
    by (simp add: example_defs)
  have caller: "callerMetadata exampleDeps ?urls = [(''X-Amz-Object-Lock-Mode'', ''GOVERNANCE'')]"
    by (simp add: callerMetadata_def mergeCanonical_def example_defs header_eval)
  have lock: "targetLockFields exampleDeps exampleEnv ?urls = Inr ([], [], [])"
    by (simp add: targetLockFields_def example_defs)
  have pm: "populatedMetadata exampleDeps exampleEnv ?urls False (callerMetadata exampleDeps ?urls)
      = (Inr [(''X-Amz-Object-Lock-Mode'', ''GOVERNANCE'')], [])"
    by (simp add: caller populatedMetadata_def mergeCanonical_def) (simp add: example_defs)
  have cl: "clientError exampleEnv (TargetAlias ?urls) (URL (TargetContent ?urls)) = None"
    by (simp add: example_defs)
  from retention_only_update [OF run ret] lock pm cl
  have "fst ?run = clntPutObjectRetention exampleEnv
      \<and> snd ?run = [] @ [PutObjectRetentionCall (TargetAlias ?urls) (URL (TargetContent ?urls))
           (case map_of [(''X-Amz-Object-Lock-Mode'', ''GOVERNANCE'')]
                   (AmzObjectLockMode exampleDeps) of Some s \<Rightarrow> s | None \<Rightarrow> [])
           (case map_of [(''X-Amz-Object-Lock-Mode'', ''GOVERNANCE'')]
                   (AmzObjectLockRetainUntilDate exampleDeps) of
              Some s \<Rightarrow> parseRFC3339 exampleDeps s | None \<Rightarrow> None)]"
    by blast
  then have "?run = (None, [PutObjectRetentionCall ''s3'' ''/bucket/dest.txt'' ''GOVERNANCE'' None])"
    by (simp add: example_defs prod_eq_iff)
  then show ?thesis .
qed

lemma callerMetadata_empty:
  "(callerMetadata d urls = [])
     = (UserMetadata (SourceContent urls) = [] \<and> Metadata (SourceContent urls) = [])"
proof -
  have ne: "mergeCanonical d md m \<noteq> []" if "md \<noteq> [] \<or> m \<noteq> []" for md m
    using that
  proof (induction m arbitrary: md)
    case Nil
    then show ?case by (simp add: mergeCanonical_def)
  next
    case (Cons kv m)
    obtain k v where kv: "kv = (k, v)" by (cases kv)
    have "AList.update (CanonicalHeaderKey d k) v md \<noteq> []"
      by (cases md) auto
    with Cons.IH [of "AList.update (CanonicalHeaderKey d k) v md"] show ?case
      by (simp add: mergeCanonical_def kv)
  qed
  show ?thesis
  proof (cases "UserMetadata (SourceContent urls) = [] \<and> Metadata (SourceContent urls) = []")
    case True
    then show ?thesis by (simp add: callerMetadata_def mergeCanonical_def)
  next
    case False
    with ne [of "mergeCanonical d [] (UserMetadata (SourceContent urls))"
        "Metadata (SourceContent urls)"]
      ne [of "[]" "UserMetadata (SourceContent urls)"]
    show ?thesis by (auto simp: callerMetadata_def)
  qed
qed

lemma upload_same_alias_calls:
  assumes "uploadSourceToTargetURL d env urls preserve = (err, calls)"
    and "SourceAlias urls = TargetAlias urls"
  shows "\<not> (\<exists>c \<in> set calls. isGet c \<or> isPut c) \<and> length (filter isCopy calls) \<le> 1"
proof (cases "targetLockFields d env urls")
  case (Inl e)
  with assms upload_lock_error [OF Inl] show ?thesis by simp
next
  case (Inr f)
  obtain mode until legalHold where f: "f = (mode, until, legalHold)"
    by (cases f)
  obtain r cs where pm: "populatedMetadata d env urls preserve (callerMetadata d urls) = (r, cs)"
    by (cases "populatedMetadata d env urls preserve (callerMetadata d urls)") auto
  note q = list_all_quiet [OF populatedMetadata_calls [OF pm]]
  show ?thesis
  proof (cases r)
    case e: (Inl e)
    from upload_metadata_error [OF Inr _ pm [unfolded e]] assms q show ?thesis by auto
  next
    case md: (Inr md)
    show ?thesis
    proof (cases "RetentionEnabled (SourceContent urls)")
      case True
      from upload_retention [OF Inr True pm [unfolded md]] assms(1) q show ?thesis
        by (auto simp: putTargetRetention_calls split: option.splits)
    next
      case False
      from upload_copy [OF Inr [unfolded f] assms(2) False pm [unfolded md]] assms(1) q
      show ?thesis
        by (auto simp: copySourceToTargetURL_calls split: option.splits)
    qed
  qed
qed

text \<open>
  C4 (as the code has it). With source and target on the same alias the function never
  calls \<open>Get\<close> or \<open>Put\<close> and issues at most one \<open>Copy\<close>; it issues exactly one, and returns
  its result, when the source content has retention not enabled, the target's lock
  fields are valid, the metadata is there (supplied by the caller, or obtained by a stat
  that succeeds) and the target client is made. With different aliases and retention
  not enabled on the source content, it opens a read stream on the source once the lock
  fields are valid and the source client is made, never calls \<open>Copy\<close>, and when the
  stream and its metadata are obtained and the target client is made it ends with the
  one \<open>Put\<close> whose result it returns. With retention enabled on the source content it
  calls none of \<open>Get\<close>, \<open>Put\<close> and \<open>Copy\<close>, whatever the aliases.
\<close>

theorem copy_or_stream:
  assumes "uploadSourceToTargetURL d env urls preserve = (err, calls)"
  shows "(SourceAlias urls = TargetAlias urls \<longrightarrow>
            \<not> (\<exists>c \<in> set calls. isGet c \<or> isPut c) \<and> length (filter isCopy calls) \<le> 1)
     \<and> (SourceAlias urls = TargetAlias urls \<and> \<not> RetentionEnabled (SourceContent urls)
          \<and> (\<exists>f. targetLockFields d env urls = Inr f)
          \<and> (\<exists>md cs. populatedMetadata d env urls preserve (callerMetadata d urls) = (Inr md, cs))
          \<and> clientError env (TargetAlias urls) (URL (TargetContent urls)) = None
          \<longrightarrow> length (filter isCopy calls) = 1 \<and> isCopy (last calls) \<and> err = clntCopy env)
     \<and> (SourceAlias urls \<noteq> TargetAlias urls \<and> \<not> RetentionEnabled (SourceContent urls)
          \<and> (\<exists>f. targetLockFields d env urls = Inr f)
          \<and> clientError env (SourceAlias urls) (URL (SourceContent urls)) = None
          \<longrightarrow> GetCall (SourceAlias urls) (URL (SourceContent urls)) \<in> set calls
              \<and> \<not> (\<exists>c \<in> set calls. isCopy c))
     \<and> (SourceAlias urls \<noteq> TargetAlias urls \<and> \<not> RetentionEnabled (SourceContent urls)
          \<and> (\<exists>f. targetLockFields d env urls = Inr f)
          \<and> (\<exists>r cs. getSourceStream d env (SourceAlias urls) (URL (SourceContent urls)) True
                        preserve = (Inr r, cs))
          \<and> clientError env (TargetAlias urls) (URL (TargetContent urls)) = None
          \<longrightarrow> length (filter isPut calls) = 1 \<and> isPut (last calls) \<and> err = clntPut env)
     \<and> (RetentionEnabled (SourceContent urls) \<longrightarrow>
            \<not> (\<exists>c \<in> set calls. isGet c \<or> isPut c \<or> isCopy c))"
proof -
  have one: "SourceAlias urls = TargetAlias urls \<longrightarrow>
            \<not> (\<exists>c \<in> set calls. isGet c \<or> isPut c) \<and> length (filter isCopy calls) \<le> 1"
    using upload_same_alias_calls [OF assms] by blast
  have two: "length (filter isCopy calls) = 1 \<and> isCopy (last calls) \<and> err = clntCopy env"
    if same: "SourceAlias urls = TargetAlias urls"
      and nr: "\<not> RetentionEnabled (SourceContent urls)"
      and lock: "targetLockFields d env urls = Inr f"
      and pm: "populatedMetadata d env urls preserve (callerMetadata d urls) = (Inr md, cs)"
      and cl: "clientError env (TargetAlias urls) (URL (TargetContent urls)) = None"
    for f md cs
  proof -
    obtain mode until legalHold where f: "f = (mode, until, legalHold)"
      by (cases f)
    from upload_copy [OF lock [unfolded f] same nr pm] assms cl
      list_all_quiet [OF populatedMetadata_calls [OF pm]]
    show ?thesis
      by (auto simp: copySourceToTargetURL_calls)
  qed
  have three: "GetCall (SourceAlias urls) (URL (SourceContent urls)) \<in> set calls
              \<and> \<not> (\<exists>c \<in> set calls. isCopy c)"
    if diff: "SourceAlias urls \<noteq> TargetAlias urls"
      and nr: "\<not> RetentionEnabled (SourceContent urls)"
      and lock: "targetLockFields d env urls = Inr f"
      and cl: "clientError env (SourceAlias urls) (URL (SourceContent urls)) = None"
    for f
  proof -
    obtain mode until legalHold where f: "f = (mode, until, legalHold)"
      by (cases f)
    obtain r cs where gs: "getSourceStream d env (SourceAlias urls) (URL (SourceContent urls))
        True preserve = (r, cs)"
      by (cases "getSourceStream d env (SourceAlias urls) (URL (SourceContent urls)) True
        preserve") auto
    from getSourceStream_calls [OF gs] cl
    have hd: "cs \<noteq> []" "hd cs = GetCall (SourceAlias urls) (URL (SourceContent urls))"
      and nc: "list_all (\<lambda>c. \<not> isPut c \<and> \<not> isCopy c \<and> \<not> isPutObjectRetention c) cs"
      by simp_all
    from hd have mem: "GetCall (SourceAlias urls) (URL (SourceContent urls)) \<in> set cs"
      by (cases cs) auto
    from nc have nocopy: "\<not> (\<exists>c \<in> set cs. isCopy c)"
      by (auto simp: list_all_iff)
    show ?thesis
    proof (cases r)
      case (Inl e)
      from upload_stream_error [OF lock diff nr gs [unfolded Inl]] assms mem nocopy
      show ?thesis by simp
    next
      case (Inr p)
      obtain reader smd where p: "p = (reader, smd)" by (cases p)
      from upload_stream [OF lock [unfolded f] diff nr gs [unfolded Inr p]] assms mem nocopy
      show ?thesis
        by (auto simp: putTargetStream_calls split: option.splits)
    qed
  qed
  have four: "length (filter isPut calls) = 1 \<and> isPut (last calls) \<and> err = clntPut env"
    if diff: "SourceAlias urls \<noteq> TargetAlias urls"
      and nr: "\<not> RetentionEnabled (SourceContent urls)"
      and lock: "targetLockFields d env urls = Inr f"
      and gs: "getSourceStream d env (SourceAlias urls) (URL (SourceContent urls)) True
                  preserve = (Inr r, cs)"
      and cl: "clientError env (TargetAlias urls) (URL (TargetContent urls)) = None"
    for f r cs
  proof -
    obtain mode until legalHold where f: "f = (mode, until, legalHold)"
      by (cases f)
    obtain reader smd where r: "r = (reader, smd)" by (cases r)
    from getSourceStream_calls [OF gs]
    have "filter isPut cs = []"
      by (auto simp: list_all_iff filter_empty_conv)
    with upload_stream [OF lock [unfolded f] diff nr gs [unfolded r]] assms cl
    show ?thesis
      by (auto simp: putTargetStream_calls)
  qed
  have five: "RetentionEnabled (SourceContent urls) \<longrightarrow>
            \<not> (\<exists>c \<in> set calls. isGet c \<or> isPut c \<or> isCopy c)"
    using upload_retention_calls [OF assms] by blast
  from one two three four five show ?thesis by blast
qed

theorem copy_or_stream_witness:
  "length (filter isCopy (snd (uploadSourceToTargetURL exampleDeps exampleEnv
       (transfer ''fsA'' ownerSource ''fsA'' (plainFile ''/dest.txt'')) False))) = 1
   \<and> \<not> (\<exists>c \<in> set (snd (uploadSourceToTargetURL exampleDeps exampleEnv
       (transfer ''fsA'' ownerSource ''fsA'' (plainFile ''/dest.txt'')) False)). isGet c \<or> isPut c)
   \<and> length (filter isPut (snd (uploadSourceToTargetURL exampleDeps exampleEnv
       (transfer ''fsA'' ownerSource ''fsB'' (plainFile ''/dest.txt'')) False))) = 1
   \<and> GetCall ''fsA'' ''/bucket/file.txt''
       \<in> set (snd (uploadSourceToTargetURL exampleDeps exampleEnv
            (transfer ''fsA'' ownerSource ''fsB'' (plainFile ''/dest.txt'')) False))"
proof -
  let ?same = "transfer ''fsA'' ownerSource ''fsA'' (plainFile ''/dest.txt'')"
  let ?cross = "transfer ''fsA'' ownerSource ''fsB'' (plainFile ''/dest.txt'')"
  let ?runA = "uploadSourceToTargetURL exampleDeps exampleEnv ?same False"
  let ?runB = "uploadSourceToTargetURL exampleDeps exampleEnv ?cross False"
  have runA: "?runA = (fst ?runA, snd ?runA)" and runB: "?runB = (fst ?runB, snd ?runB)"
    by simp_all
  have sameA: "SourceAlias ?same = TargetAlias ?same \<and> \<not> RetentionEnabled (SourceContent ?same)
      \<and> clientError exampleEnv (TargetAlias ?same) (URL (TargetContent ?same)) = None"
    by (simp add: example_defs)
  have lockA: "\<exists>f. targetLockFields exampleDeps exampleEnv ?same = Inr f"
    by (simp add: targetLockFields_def example_defs)
  have ne: "callerMetadata exampleDeps ?same \<noteq> []"
    by (simp add: callerMetadata_empty example_defs)
  have pmA: "\<exists>md cs. populatedMetadata exampleDeps exampleEnv ?same False
      (callerMetadata exampleDeps ?same) = (Inr md, cs)"
    by (simp add: populatedMetadata_caller [OF ne])
  have diffB: "SourceAlias ?cross \<noteq> TargetAlias ?cross
      \<and> \<not> RetentionEnabled (SourceContent ?cross)
      \<and> clientError exampleEnv (SourceAlias ?cross) (URL (SourceContent ?cross)) = None
      \<and> clientError exampleEnv (TargetAlias ?cross) (URL (TargetContent ?cross)) = None
      \<and> SourceAlias ?cross = ''fsA'' \<and> URL (SourceContent ?cross) = ''/bucket/file.txt''"
    by (simp add: example_defs)
  have lockB: "\<exists>f. targetLockFields exampleDeps exampleEnv ?cross = Inr f"
    by (simp add: targetLockFields_def example_defs)
  have gsB: "\<exists>r cs. getSourceStream exampleDeps exampleEnv (SourceAlias ?cross)
      (URL (SourceContent ?cross)) True False = (Inr r, cs)"
    by (simp add: getSourceStream_def example_defs Let_def)
  from copy_or_stream [OF runA] sameA lockA pmA
  have a: "length (filter isCopy (snd ?runA)) = 1
      \<and> \<not> (\<exists>c \<in> set (snd ?runA). isGet c \<or> isPut c)"
    by blast
  from copy_or_stream [OF runB] diffB lockB gsB
  have b: "length (filter isPut (snd ?runB)) = 1
      \<and> GetCall ''fsA'' ''/bucket/file.txt'' \<in> set (snd ?runB)"
    by metis
  from a b show ?thesis by blast
qed

text \<open>
  C4 as stated fails: with source and target on different aliases and retention enabled
  on the source content, the function updates the retention and neither opens a read
  stream nor calls \<open>Put\<close>.
\<close>

theorem cross_alias_stream_counterexample:
  "uploadSourceToTargetURL exampleDeps exampleEnv
     (transfer ''s3'' retainedSource ''backup'' (plainFile ''/bucket/dest.txt'')) False
   = (None, [PutObjectRetentionCall ''backup'' ''/bucket/dest.txt'' ''GOVERNANCE'' None])"
  by (simp add: uploadSourceToTargetURL_def targetLockFields_def populatedMetadata_def
      putTargetRetention_def mergeCanonical_def example_defs header_eval)

lemma distinct_callerMetadata: "distinct (map fst (callerMetadata d urls))"
  by (simp add: callerMetadata_def distinct_mergeCanonical)

lemma map_of_callerMetadata:
  "map_of (callerMetadata d urls)
     = layer d (UserMetadata (SourceContent urls)) ++ layer d (Metadata (SourceContent urls))"
  by (simp add: callerMetadata_def map_of_mergeCanonical)

lemma populatedMetadata_stat:
  assumes "clientError env (SourceAlias urls) (URL (SourceContent urls)) = None"
    and "clntStat env = Inr st"
  shows "populatedMetadata d env urls preserve []
     = (Inr (mergeCanonical d
               (mergeCanonical d
                  (filterMetadata d
                     (mergeCanonical d (mergeCanonical d [] (Metadata st))
                        (UserMetadata (TargetContent urls))))
                  (Metadata (TargetContent urls)))
               (UserMetadata (TargetContent urls))),
        [StatCall (SourceAlias urls) (URL (SourceContent urls))])"
  using assms by (simp add: populatedMetadata_def getAllMetadata_def)

text \<open>
  C1 (as the code has it). In the copy of an object within one alias (retention not
  enabled on the source content, the target's lock fields valid, the target client
  made), the map handed to \<open>Copy\<close> is built with the precedence (later overriding
  earlier): the source's \<open>UserMetadata\<close>, the source's \<open>Metadata\<close>, the target's
  \<open>Metadata\<close>, the target's \<open>UserMetadata\<close>, all keys in canonical form; then the final
  filtering, and on top the three lock keys. When the caller put no metadata into the
  source content, the source's part is instead what \<open>getAllMetadata\<close> gives: the
  \<open>Metadata\<close> of a stat of the source with the target's \<open>UserMetadata\<close> over it, filtered;
  the target's two maps, the filtering and the lock keys follow as before. In
  particular, for a key of the source's stored metadata that neither map of the target
  holds, that the filtering keeps and that is not a lock key, the stored value is the one
  in the map handed to \<open>Copy\<close>, whatever the source's user-supplied metadata holds for
  it. In the copy across aliases the map handed to \<open>Put\<close> starts instead from the
  metadata read with the source stream, with the target's \<open>Metadata\<close> and then its
  \<open>UserMetadata\<close> over it, the final filtering, and the lock keys that are not empty.
\<close>

theorem metadata_precedence:
  assumes "uploadSourceToTargetURL d env urls preserve = (err, calls)"
    and "\<not> RetentionEnabled (SourceContent urls)"
    and "targetLockFields d env urls = Inr (mode, until, legalHold)"
    and "clientError env (TargetAlias urls) (URL (TargetContent urls)) = None"
  shows "(SourceAlias urls = TargetAlias urls \<and> callerMetadata d urls \<noteq> [] \<longrightarrow>
          (\<exists>md. calls = [CopyCall (TargetAlias urls) (URL (TargetContent urls))
                           (ToSlash (filepathSeparator d) (URL (SourceContent urls)))
                           (Size (SourceContent urls)) md (DisableMultipart urls)]
               \<and> map_of md
                   = (kept d (layer d (UserMetadata (SourceContent urls))
                              ++ layer d (Metadata (SourceContent urls))
                              ++ layer d (Metadata (TargetContent urls))
                              ++ layer d (UserMetadata (TargetContent urls))))
                     (AmzObjectLockMode d \<mapsto> mode,
                      AmzObjectLockRetainUntilDate d \<mapsto> until,
                      AmzObjectLockLegalHold d \<mapsto> legalHold)))
     \<and> (\<forall>st. SourceAlias urls = TargetAlias urls \<and> callerMetadata d urls = []
           \<and> clientError env (SourceAlias urls) (URL (SourceContent urls)) = None
           \<and> clntStat env = Inr st \<longrightarrow>
          (\<exists>md. calls = [StatCall (SourceAlias urls) (URL (SourceContent urls)),
                          CopyCall (TargetAlias urls) (URL (TargetContent urls))
                           (ToSlash (filepathSeparator d) (URL (SourceContent urls)))
                           (Size (SourceContent urls)) md (DisableMultipart urls)]
               \<and> map_of md
                   = (kept d (kept d (layer d (Metadata st)
                                      ++ layer d (UserMetadata (TargetContent urls)))
                              ++ layer d (Metadata (TargetContent urls))
                              ++ layer d (UserMetadata (TargetContent urls))))
                     (AmzObjectLockMode d \<mapsto> mode,
                      AmzObjectLockRetainUntilDate d \<mapsto> until,
                      AmzObjectLockLegalHold d \<mapsto> legalHold)))
     \<and> (\<forall>k v. SourceAlias urls = TargetAlias urls
           \<and> layer d (Metadata (SourceContent urls)) k = Some v
           \<and> layer d (Metadata (TargetContent urls)) k = None
           \<and> layer d (UserMetadata (TargetContent urls)) k = None
           \<and> validHeader d (k, v)
           \<and> \<not> HasPrefix (CanonicalHeaderKey d k)
                   (CanonicalHeaderKey d (serverEncryptionKeyPrefix d))
           \<and> k \<notin> {AmzObjectLockMode d, AmzObjectLockRetainUntilDate d, AmzObjectLockLegalHold d}
           \<longrightarrow>
          (\<exists>md. calls = [CopyCall (TargetAlias urls) (URL (TargetContent urls))
                           (ToSlash (filepathSeparator d) (URL (SourceContent urls)))
                           (Size (SourceContent urls)) md (DisableMultipart urls)]
               \<and> map_of md k = Some v))
     \<and> (\<forall>reader smd cs.
           SourceAlias urls \<noteq> TargetAlias urls
           \<and> getSourceStream d env (SourceAlias urls) (URL (SourceContent urls)) True preserve
               = (Inr (reader, smd), cs)
           \<and> distinct (map fst smd) \<longrightarrow>
           (\<exists>md. calls = cs @ [PutCall (TargetAlias urls) (URL (TargetContent urls))
                                 (\<not> isReadAt reader) (Size (SourceContent urls)) md (MD5 urls)
                                 (DisableMultipart urls)]
               \<and> map_of md
                   = (\<lambda>M. if legalHold \<noteq> [] then M(AmzObjectLockLegalHold d \<mapsto> legalHold) else M)
                     ((\<lambda>M. if until \<noteq> [] then M(AmzObjectLockRetainUntilDate d \<mapsto> until) else M)
                      ((\<lambda>M. if mode \<noteq> [] then M(AmzObjectLockMode d \<mapsto> mode) else M)
                       (kept d (map_of smd
                                ++ layer d (Metadata (TargetContent urls))
                                ++ layer d (UserMetadata (TargetContent urls))))))))"
proof -
  have same: "\<exists>md. calls = [CopyCall (TargetAlias urls) (URL (TargetContent urls))
                           (ToSlash (filepathSeparator d) (URL (SourceContent urls)))
                           (Size (SourceContent urls)) md (DisableMultipart urls)]
               \<and> map_of md
                   = (kept d (layer d (UserMetadata (SourceContent urls))
                              ++ layer d (Metadata (SourceContent urls))
                              ++ layer d (Metadata (TargetContent urls))
                              ++ layer d (UserMetadata (TargetContent urls))))
                     (AmzObjectLockMode d \<mapsto> mode,
                      AmzObjectLockRetainUntilDate d \<mapsto> until,
                      AmzObjectLockLegalHold d \<mapsto> legalHold)"
    if sa: "SourceAlias urls = TargetAlias urls" and ne: "callerMetadata d urls \<noteq> []"
  proof -
    let ?merged = "mergeCanonical d
        (mergeCanonical d (callerMetadata d urls) (Metadata (TargetContent urls)))
        (UserMetadata (TargetContent urls))"
    have dist: "distinct (map fst ?merged)"
      by (simp add: distinct_mergeCanonical distinct_callerMetadata)
    have m: "map_of (filterMetadata d ?merged)
        = kept d (layer d (UserMetadata (SourceContent urls))
                  ++ layer d (Metadata (SourceContent urls))
                  ++ layer d (Metadata (TargetContent urls))
                  ++ layer d (UserMetadata (TargetContent urls)))"
      by (simp add: map_of_filterMetadata [OF dist] map_of_mergeCanonical map_of_callerMetadata)
    from upload_copy [OF assms(3) sa assms(2) populatedMetadata_caller [OF ne]] assms(1,4)
    have "calls = [CopyCall (TargetAlias urls) (URL (TargetContent urls))
                     (ToSlash (filepathSeparator d) (URL (SourceContent urls)))
                     (Size (SourceContent urls))
                     (AList.update (AmzObjectLockLegalHold d) legalHold
                        (AList.update (AmzObjectLockRetainUntilDate d) until
                           (AList.update (AmzObjectLockMode d) mode (filterMetadata d ?merged))))
                     (DisableMultipart urls)]"
      by (simp add: copySourceToTargetURL_calls)
    moreover have "map_of (AList.update (AmzObjectLockLegalHold d) legalHold
                        (AList.update (AmzObjectLockRetainUntilDate d) until
                           (AList.update (AmzObjectLockMode d) mode (filterMetadata d ?merged))))
        = (kept d (layer d (UserMetadata (SourceContent urls))
                              ++ layer d (Metadata (SourceContent urls))
                              ++ layer d (Metadata (TargetContent urls))
                              ++ layer d (UserMetadata (TargetContent urls))))
                     (AmzObjectLockMode d \<mapsto> mode,
                      AmzObjectLockRetainUntilDate d \<mapsto> until,
                      AmzObjectLockLegalHold d \<mapsto> legalHold)"
      by (simp add: update_conv' m)
    ultimately show ?thesis by blast
  qed
  have stat: "\<exists>md. calls = [StatCall (SourceAlias urls) (URL (SourceContent urls)),
                          CopyCall (TargetAlias urls) (URL (TargetContent urls))
                           (ToSlash (filepathSeparator d) (URL (SourceContent urls)))
                           (Size (SourceContent urls)) md (DisableMultipart urls)]
               \<and> map_of md
                   = (kept d (kept d (layer d (Metadata st)
                                      ++ layer d (UserMetadata (TargetContent urls)))
                              ++ layer d (Metadata (TargetContent urls))
                              ++ layer d (UserMetadata (TargetContent urls))))
                     (AmzObjectLockMode d \<mapsto> mode,
                      AmzObjectLockRetainUntilDate d \<mapsto> until,
                      AmzObjectLockLegalHold d \<mapsto> legalHold)"
    if sa: "SourceAlias urls = TargetAlias urls" and em: "callerMetadata d urls = []"
      and sc: "clientError env (SourceAlias urls) (URL (SourceContent urls)) = None"
      and sr: "clntStat env = Inr st"
    for st
  proof -
    let ?got = "mergeCanonical d (mergeCanonical d [] (Metadata st))
        (UserMetadata (TargetContent urls))"
    let ?merged = "mergeCanonical d
        (mergeCanonical d (filterMetadata d ?got) (Metadata (TargetContent urls)))
        (UserMetadata (TargetContent urls))"
    have dg: "distinct (map fst ?got)"
      by (simp add: distinct_mergeCanonical)
    have g: "map_of (filterMetadata d ?got)
        = kept d (layer d (Metadata st) ++ layer d (UserMetadata (TargetContent urls)))"
      by (simp add: map_of_filterMetadata [OF dg] map_of_mergeCanonical)
    have dist: "distinct (map fst ?merged)"
      by (simp add: distinct_mergeCanonical distinct_filterMetadata [OF dg])
    have m: "map_of (filterMetadata d ?merged)
        = kept d (kept d (layer d (Metadata st) ++ layer d (UserMetadata (TargetContent urls)))
                  ++ layer d (Metadata (TargetContent urls))
                  ++ layer d (UserMetadata (TargetContent urls)))"
      by (simp add: map_of_filterMetadata [OF dist] map_of_mergeCanonical g)
    from populatedMetadata_stat [OF sc sr, of d preserve] em
    have pm: "populatedMetadata d env urls preserve (callerMetadata d urls)
        = (Inr ?merged, [StatCall (SourceAlias urls) (URL (SourceContent urls))])"
      by simp
    from upload_copy [OF assms(3) sa assms(2) pm] assms(1,4)
    have "calls = [StatCall (SourceAlias urls) (URL (SourceContent urls)),
                   CopyCall (TargetAlias urls) (URL (TargetContent urls))
                     (ToSlash (filepathSeparator d) (URL (SourceContent urls)))
                     (Size (SourceContent urls))
                     (AList.update (AmzObjectLockLegalHold d) legalHold
                        (AList.update (AmzObjectLockRetainUntilDate d) until
                           (AList.update (AmzObjectLockMode d) mode (filterMetadata d ?merged))))
                     (DisableMultipart urls)]"
      by (simp add: copySourceToTargetURL_calls)
    moreover have "map_of (AList.update (AmzObjectLockLegalHold d) legalHold
                        (AList.update (AmzObjectLockRetainUntilDate d) until
                           (AList.update (AmzObjectLockMode d) mode (filterMetadata d ?merged))))
        = (kept d (kept d (layer d (Metadata st)
                                      ++ layer d (UserMetadata (TargetContent urls)))
                              ++ layer d (Metadata (TargetContent urls))
                              ++ layer d (UserMetadata (TargetContent urls))))
                     (AmzObjectLockMode d \<mapsto> mode,
                      AmzObjectLockRetainUntilDate d \<mapsto> until,
                      AmzObjectLockLegalHold d \<mapsto> legalHold)"
      by (simp add: update_conv' m)
    ultimately show ?thesis by blast
  qed
  have stored: "\<exists>md. calls = [CopyCall (TargetAlias urls) (URL (TargetContent urls))
                           (ToSlash (filepathSeparator d) (URL (SourceContent urls)))
                           (Size (SourceContent urls)) md (DisableMultipart urls)]
               \<and> map_of md k = Some v"
    if sa: "SourceAlias urls = TargetAlias urls"
      and sv: "layer d (Metadata (SourceContent urls)) k = Some v"
      and t1: "layer d (Metadata (TargetContent urls)) k = None"
      and t2: "layer d (UserMetadata (TargetContent urls)) k = None"
      and vh: "validHeader d (k, v)"
      and np: "\<not> HasPrefix (CanonicalHeaderKey d k)
                   (CanonicalHeaderKey d (serverEncryptionKeyPrefix d))"
      and nl: "k \<notin> {AmzObjectLockMode d, AmzObjectLockRetainUntilDate d, AmzObjectLockLegalHold d}"
    for k v
  proof -
    from sv have "Metadata (SourceContent urls) \<noteq> []"
      by (auto simp: layer_Nil)
    then have ne: "callerMetadata d urls \<noteq> []"
      by (simp add: callerMetadata_empty)
    from same [OF sa ne] obtain md where
      c: "calls = [CopyCall (TargetAlias urls) (URL (TargetContent urls))
                           (ToSlash (filepathSeparator d) (URL (SourceContent urls)))
                           (Size (SourceContent urls)) md (DisableMultipart urls)]"
      and m: "map_of md
                   = (kept d (layer d (UserMetadata (SourceContent urls))
                              ++ layer d (Metadata (SourceContent urls))
                              ++ layer d (Metadata (TargetContent urls))
                              ++ layer d (UserMetadata (TargetContent urls))))
                     (AmzObjectLockMode d \<mapsto> mode,
                      AmzObjectLockRetainUntilDate d \<mapsto> until,
                      AmzObjectLockLegalHold d \<mapsto> legalHold)"
      by blast
    from sv t1 t2 have "(layer d (UserMetadata (SourceContent urls))
                              ++ layer d (Metadata (SourceContent urls))
                              ++ layer d (Metadata (TargetContent urls))
                              ++ layer d (UserMetadata (TargetContent urls))) k = Some v"
      by (simp add: map_add_def)
    with vh np have "kept d (layer d (UserMetadata (SourceContent urls))
                              ++ layer d (Metadata (SourceContent urls))
                              ++ layer d (Metadata (TargetContent urls))
                              ++ layer d (UserMetadata (TargetContent urls))) k = Some v"
      by (simp add: kept_def)
    with m nl have "map_of md k = Some v"
      by simp
    with c show ?thesis by blast
  qed
  have cross: "\<exists>md. calls = cs @ [PutCall (TargetAlias urls) (URL (TargetContent urls))
                                 (\<not> isReadAt reader) (Size (SourceContent urls)) md (MD5 urls)
                                 (DisableMultipart urls)]
               \<and> map_of md
                   = (\<lambda>M. if legalHold \<noteq> [] then M(AmzObjectLockLegalHold d \<mapsto> legalHold) else M)
                     ((\<lambda>M. if until \<noteq> [] then M(AmzObjectLockRetainUntilDate d \<mapsto> until) else M)
                      ((\<lambda>M. if mode \<noteq> [] then M(AmzObjectLockMode d \<mapsto> mode) else M)
                       (kept d (map_of smd
                                ++ layer d (Metadata (TargetContent urls))
                                ++ layer d (UserMetadata (TargetContent urls))))))"
    if diff: "SourceAlias urls \<noteq> TargetAlias urls"
      and gs: "getSourceStream d env (SourceAlias urls) (URL (SourceContent urls)) True preserve
               = (Inr (reader, smd), cs)"
      and ds: "distinct (map fst smd)"
    for reader smd cs
  proof -
    let ?merged = "mergeCanonical d (mergeCanonical d smd (Metadata (TargetContent urls)))
        (UserMetadata (TargetContent urls))"
    have dist: "distinct (map fst ?merged)"
      by (simp add: distinct_mergeCanonical ds)
    have m: "map_of (filterMetadata d ?merged)
        = kept d (map_of smd ++ layer d (Metadata (TargetContent urls))
                  ++ layer d (UserMetadata (TargetContent urls)))"
      by (simp add: map_of_filterMetadata [OF dist] map_of_mergeCanonical)
    from upload_stream [OF assms(3) diff assms(2) gs] assms(1,4)
    have "calls = cs @ [PutCall (TargetAlias urls) (URL (TargetContent urls))
                     (\<not> isReadAt reader) (Size (SourceContent urls))
                     ((if legalHold \<noteq> [] then AList.update (AmzObjectLockLegalHold d) legalHold
                       else id)
                        ((if until \<noteq> [] then AList.update (AmzObjectLockRetainUntilDate d) until
                          else id)
                           ((if mode \<noteq> [] then AList.update (AmzObjectLockMode d) mode else id)
                              (filterMetadata d ?merged))))
                     (MD5 urls) (DisableMultipart urls)]"
      by (simp add: putTargetStream_calls)
    moreover have "map_of ((if legalHold \<noteq> [] then AList.update (AmzObjectLockLegalHold d) legalHold
                       else id)
                        ((if until \<noteq> [] then AList.update (AmzObjectLockRetainUntilDate d) until
                          else id)
                           ((if mode \<noteq> [] then AList.update (AmzObjectLockMode d) mode else id)
                              (filterMetadata d ?merged))))
        = (\<lambda>M. if legalHold \<noteq> [] then M(AmzObjectLockLegalHold d \<mapsto> legalHold) else M)
                     ((\<lambda>M. if until \<noteq> [] then M(AmzObjectLockRetainUntilDate d \<mapsto> until) else M)
                      ((\<lambda>M. if mode \<noteq> [] then M(AmzObjectLockMode d \<mapsto> mode) else M)
                       (kept d (map_of smd
                                ++ layer d (Metadata (TargetContent urls))
                                ++ layer d (UserMetadata (TargetContent urls))))))"
      by (simp add: update_conv' m)
    ultimately show ?thesis by blast
  qed
  from same stat stored cross show ?thesis by blast
qed

theorem metadata_precedence_witness:
  "(\<exists>md. snd (uploadSourceToTargetURL exampleDeps exampleEnv
              (transfer ''s3'' ownerSource ''s3'' (plainFile ''/bucket/dest.txt'')) False)
          = [CopyCall ''s3'' ''/bucket/dest.txt'' ''/bucket/file.txt'' 0 md False]
      \<and> map_of md ''X-Amz-Meta-Owner'' = Some ''stored'')
   \<and> (\<exists>md. snd (uploadSourceToTargetURL exampleDeps (exampleEnv\<lparr>clntStat := Inr ownerSource\<rparr>)
              (transfer ''s3'' (plainFile ''/bucket/file.txt'') ''s3''
                 ((plainFile ''/bucket/dest.txt'')\<lparr>UserMetadata := [(''x-amz-meta-owner'', ''target'')]\<rparr>))
              False)
          = [StatCall ''s3'' ''/bucket/file.txt'',
             CopyCall ''s3'' ''/bucket/dest.txt'' ''/bucket/file.txt'' 0 md False]
      \<and> map_of md ''X-Amz-Meta-Owner'' = Some ''target'')"
proof -
  let ?urls = "transfer ''s3'' ownerSource ''s3'' (plainFile ''/bucket/dest.txt'')"
  let ?run = "uploadSourceToTargetURL exampleDeps exampleEnv ?urls False"
  let ?env2 = "exampleEnv\<lparr>clntStat := Inr ownerSource\<rparr>"
  let ?urls2 = "transfer ''s3'' (plainFile ''/bucket/file.txt'') ''s3''
      ((plainFile ''/bucket/dest.txt'')\<lparr>UserMetadata := [(''x-amz-meta-owner'', ''target'')]\<rparr>)"
  let ?run2 = "uploadSourceToTargetURL exampleDeps ?env2 ?urls2 False"
  have run: "?run = (fst ?run, snd ?run)" and run2: "?run2 = (fst ?run2, snd ?run2)"
    by simp_all
  have nr: "\<not> RetentionEnabled (SourceContent ?urls)"
    and nr2: "\<not> RetentionEnabled (SourceContent ?urls2)"
    by (simp_all add: example_defs)
  have lock: "targetLockFields exampleDeps exampleEnv ?urls = Inr ([], [], [])"
    and lock2: "targetLockFields exampleDeps ?env2 ?urls2 = Inr ([], [], [])"
    by (simp_all add: targetLockFields_def example_defs)
  have cl: "clientError exampleEnv (TargetAlias ?urls) (URL (TargetContent ?urls)) = None"
    and cl2: "clientError ?env2 (TargetAlias ?urls2) (URL (TargetContent ?urls2)) = None"
    by (simp_all add: example_defs)
  have canon: "CanonicalMIMEHeaderKey ''X-Amz-Meta-Owner'' = ''X-Amz-Meta-Owner''"
    "CanonicalMIMEHeaderKey ''x-amz-meta-owner'' = ''X-Amz-Meta-Owner''"
    "CanonicalMIMEHeaderKey ''x-amz-server-side-encryption'' = ''X-Amz-Server-Side-Encryption''"
    by (simp_all add: header_eval)
  have valid: "validHeader exampleDeps (''X-Amz-Meta-Owner'', ''stored'')"
    "validHeader exampleDeps (''X-Amz-Meta-Owner'', ''target'')"
    by (simp_all add: validHeader_def exampleDeps_def validFieldName_def validFieldValue_def
        header_eval)
  have cst: "CanonicalHeaderKey exampleDeps = CanonicalMIMEHeaderKey"
    "serverEncryptionKeyPrefix exampleDeps = ''x-amz-server-side-encryption''"
    "AmzObjectLockMode exampleDeps = ''X-Amz-Object-Lock-Mode''"
    "AmzObjectLockRetainUntilDate exampleDeps = ''X-Amz-Object-Lock-Retain-Until-Date''"
    "AmzObjectLockLegalHold exampleDeps = ''X-Amz-Object-Lock-Legal-Hold''"
    by (simp_all add: exampleDeps_def)
  have first: "SourceAlias ?urls = TargetAlias ?urls
      \<and> layer exampleDeps (Metadata (SourceContent ?urls)) ''X-Amz-Meta-Owner'' = Some ''stored''
      \<and> layer exampleDeps (Metadata (TargetContent ?urls)) ''X-Amz-Meta-Owner'' = None
      \<and> layer exampleDeps (UserMetadata (TargetContent ?urls)) ''X-Amz-Meta-Owner'' = None
      \<and> validHeader exampleDeps (''X-Amz-Meta-Owner'', ''stored'')
      \<and> \<not> HasPrefix (CanonicalHeaderKey exampleDeps ''X-Amz-Meta-Owner'')
              (CanonicalHeaderKey exampleDeps (serverEncryptionKeyPrefix exampleDeps))
      \<and> ''X-Amz-Meta-Owner'' \<notin> {AmzObjectLockMode exampleDeps,
              AmzObjectLockRetainUntilDate exampleDeps, AmzObjectLockLegalHold exampleDeps}"
    using valid(1)
    by (simp add: layer_def transfer_def ownerSource_def plainFile_def cst canon HasPrefix_def)
  note one = metadata_precedence [OF run nr lock cl]
  from one [THEN conjunct2, THEN conjunct2, THEN conjunct1] first
  have a: "\<exists>md. snd ?run = [CopyCall (TargetAlias ?urls) (URL (TargetContent ?urls))
                           (ToSlash (filepathSeparator exampleDeps) (URL (SourceContent ?urls)))
                           (Size (SourceContent ?urls)) md (DisableMultipart ?urls)]
               \<and> map_of md ''X-Amz-Meta-Owner'' = Some ''stored''"
    by blast
  have args: "TargetAlias ?urls = ''s3''" "URL (TargetContent ?urls) = ''/bucket/dest.txt''"
    "ToSlash (filepathSeparator exampleDeps) (URL (SourceContent ?urls)) = ''/bucket/file.txt''"
    "Size (SourceContent ?urls) = 0" "\<not> DisableMultipart ?urls"
    by (simp_all add: example_defs ownerSource_def ToSlash_def)
  have second: "SourceAlias ?urls2 = TargetAlias ?urls2 \<and> callerMetadata exampleDeps ?urls2 = []
      \<and> clientError ?env2 (SourceAlias ?urls2) (URL (SourceContent ?urls2)) = None
      \<and> clntStat ?env2 = Inr ownerSource"
    by (simp add: callerMetadata_empty example_defs)
  have look: "((kept exampleDeps
                 (kept exampleDeps (layer exampleDeps (Metadata ownerSource)
                                    ++ layer exampleDeps (UserMetadata (TargetContent ?urls2)))
                  ++ layer exampleDeps (Metadata (TargetContent ?urls2))
                  ++ layer exampleDeps (UserMetadata (TargetContent ?urls2))))
               (AmzObjectLockMode exampleDeps \<mapsto> [],
                AmzObjectLockRetainUntilDate exampleDeps \<mapsto> [],
                AmzObjectLockLegalHold exampleDeps \<mapsto> [])) ''X-Amz-Meta-Owner'' = Some ''target''"
    using valid
    by (simp add: kept_def layer_def transfer_def ownerSource_def plainFile_def cst canon
        HasPrefix_def map_add_def)
  note two = metadata_precedence [OF run2 nr2 lock2 cl2]
  from two [THEN conjunct2, THEN conjunct1] second obtain md where
    c2: "snd ?run2 = [StatCall (SourceAlias ?urls2) (URL (SourceContent ?urls2)),
                      CopyCall (TargetAlias ?urls2) (URL (TargetContent ?urls2))
                           (ToSlash (filepathSeparator exampleDeps) (URL (SourceContent ?urls2)))
                           (Size (SourceContent ?urls2)) md (DisableMultipart ?urls2)]"
    and m2: "map_of md
        = (kept exampleDeps
                 (kept exampleDeps (layer exampleDeps (Metadata ownerSource)
                                    ++ layer exampleDeps (UserMetadata (TargetContent ?urls2)))
                  ++ layer exampleDeps (Metadata (TargetContent ?urls2))
                  ++ layer exampleDeps (UserMetadata (TargetContent ?urls2))))
               (AmzObjectLockMode exampleDeps \<mapsto> [],
                AmzObjectLockRetainUntilDate exampleDeps \<mapsto> [],
                AmzObjectLockLegalHold exampleDeps \<mapsto> [])"
    by blast
  from m2 look have "map_of md ''X-Amz-Meta-Owner'' = Some ''target''"
    by simp
  moreover have args2: "SourceAlias ?urls2 = ''s3''" "URL (SourceContent ?urls2) = ''/bucket/file.txt''"
    "TargetAlias ?urls2 = ''s3''" "URL (TargetContent ?urls2) = ''/bucket/dest.txt''"
    "ToSlash (filepathSeparator exampleDeps) (URL (SourceContent ?urls2)) = ''/bucket/file.txt''"
    "Size (SourceContent ?urls2) = 0" "\<not> DisableMultipart ?urls2"
    by (simp_all add: example_defs ToSlash_def)
  ultimately have b: "\<exists>md. snd ?run2
          = [StatCall ''s3'' ''/bucket/file.txt'',
             CopyCall ''s3'' ''/bucket/dest.txt'' ''/bucket/file.txt'' 0 md False]
      \<and> map_of md ''X-Amz-Meta-Owner'' = Some ''target''"
    using c2 by auto
  from a args have a': "\<exists>md. snd ?run
          = [CopyCall ''s3'' ''/bucket/dest.txt'' ''/bucket/file.txt'' 0 md False]
      \<and> map_of md ''X-Amz-Meta-Owner'' = Some ''stored''"
    by auto
  from a' b show ?thesis by blast
qed

text \<open>
  C1 as stated fails: the key \<open>X-Amz-Meta-Owner\<close> is in the source's stored metadata and
  in the source's user-supplied metadata, and the map handed to \<open>Copy\<close> holds the stored
  value, not the user-supplied one.
\<close>

theorem metadata_precedence_counterexample:
  "uploadSourceToTargetURL exampleDeps exampleEnv
     (transfer ''s3'' ownerSource ''s3'' (plainFile ''/bucket/dest.txt'')) False
   = (None,
      [CopyCall ''s3'' ''/bucket/dest.txt'' ''/bucket/file.txt'' 0
         [(''X-Amz-Meta-Owner'', ''stored''), (''X-Amz-Object-Lock-Mode'', []),
          (''X-Amz-Object-Lock-Retain-Until-Date'', []),
          (''X-Amz-Object-Lock-Legal-Hold'', [])]
         False])
   \<and> map_of (UserMetadata ownerSource) ''X-Amz-Meta-Owner'' = Some ''user-supplied''
   \<and> map_of (Metadata ownerSource) ''X-Amz-Meta-Owner'' = Some ''stored''"
proof -
  let ?urls = "transfer ''s3'' ownerSource ''s3'' (plainFile ''/bucket/dest.txt'')"
  have canon: "CanonicalHeaderKey exampleDeps ''X-Amz-Meta-Owner'' = ''X-Amz-Meta-Owner''"
    "CanonicalHeaderKey exampleDeps (serverEncryptionKeyPrefix exampleDeps)
       = ''X-Amz-Server-Side-Encryption''"
    by (simp_all add: exampleDeps_def header_eval)
  have valid: "validHeader exampleDeps (''X-Amz-Meta-Owner'', ''stored'')"
    by (simp add: exampleDeps_def header_eval)
  have fields: "UserMetadata (SourceContent ?urls) = [(''X-Amz-Meta-Owner'', ''user-supplied'')]"
    "Metadata (SourceContent ?urls) = [(''X-Amz-Meta-Owner'', ''stored'')]"
    "Metadata (TargetContent ?urls) = []" "UserMetadata (TargetContent ?urls) = []"
    "SourceAlias ?urls = TargetAlias ?urls" "\<not> RetentionEnabled (SourceContent ?urls)"
    "TargetAlias ?urls = ''s3''" "URL (TargetContent ?urls) = ''/bucket/dest.txt''"
    "URL (SourceContent ?urls) = ''/bucket/file.txt''" "Size (SourceContent ?urls) = 0"
    "\<not> DisableMultipart ?urls"
    by (simp_all add: transfer_def ownerSource_def plainFile_def)
  have caller: "callerMetadata exampleDeps ?urls = [(''X-Amz-Meta-Owner'', ''stored'')]"
    by (simp add: callerMetadata_def mergeCanonical_def fields canon)
  have pm: "populatedMetadata exampleDeps exampleEnv ?urls False (callerMetadata exampleDeps ?urls)
      = (Inr [(''X-Amz-Meta-Owner'', ''stored'')], [])"
    by (simp add: caller populatedMetadata_def mergeCanonical_def fields)
  have filt: "filterMetadata exampleDeps [(''X-Amz-Meta-Owner'', ''stored'')]
      = [(''X-Amz-Meta-Owner'', ''stored'')]"
    using valid by (simp add: filterMetadata_def canon HasPrefix_def)
  have lock: "targetLockFields exampleDeps exampleEnv ?urls = Inr ([], [], [])"
    by (simp add: targetLockFields_def transfer_def plainFile_def)
  have cst: "AmzObjectLockMode exampleDeps = ''X-Amz-Object-Lock-Mode''"
    "AmzObjectLockRetainUntilDate exampleDeps = ''X-Amz-Object-Lock-Retain-Until-Date''"
    "AmzObjectLockLegalHold exampleDeps = ''X-Amz-Object-Lock-Legal-Hold''"
    "filepathSeparator exampleDeps = CHR ''/''"
    "clientError exampleEnv ''s3'' ''/bucket/dest.txt'' = None" "clntCopy exampleEnv = None"
    by (simp_all add: exampleDeps_def exampleEnv_def)
  have "uploadSourceToTargetURL exampleDeps exampleEnv ?urls False
   = (None,
      [CopyCall ''s3'' ''/bucket/dest.txt'' ''/bucket/file.txt'' 0
         [(''X-Amz-Meta-Owner'', ''stored''), (''X-Amz-Object-Lock-Mode'', []),
          (''X-Amz-Object-Lock-Retain-Until-Date'', []),
          (''X-Amz-Object-Lock-Legal-Hold'', [])]
         False])"
    by (simp add: upload_copy [OF lock fields(5) fields(6) pm] copySourceToTargetURL_calls
        fields filt cst ToSlash_def)
  then show ?thesis by (simp add: ownerSource_def plainFile_def)
qed

end
